theory Spec2Isabelle
  imports Complex_Main
begin

section \<open>Feedback patterns and the compatibility table\<close>

text \<open>
  Words are strings of five lower-case letters, known to the program by their index in
  the vocabulary \<open>words\<close>. Indices, counters and patterns are C++ \<open>int\<close>s in the
  source; none of them is ever negative or leaves the range of a 32-bit integer
  (a pattern is below 243, a counter at most 5, an index below the vocabulary size), so
  they are natural numbers here.
\<close>

definition kNumPatterns :: nat where
  "kNumPatterns = 243"

text \<open>The array \<open>shift\<close>: \<open>shift[0] = 1\<close>, \<open>shift[c] = shift[c - 1] * 3\<close>.\<close>

primrec shift :: "nat \<Rightarrow> nat" where
  "shift 0 = 1"
| "shift (Suc c) = shift c * 3"

text \<open>
  The index \<open>ch - 'a'\<close> into \<open>letters_left\<close>. (For a character below \<open>'a'\<close> the C++
  index is negative and the access undefined; the theorems assume lower-case words.)
\<close>

definition letter :: "char \<Rightarrow> nat" where
  "letter ch = of_char ch - of_char (CHR ''a'')"

definition valid_word :: "string \<Rightarrow> bool" where
  "valid_word w \<longleftrightarrow> length w = 5 \<and> (\<forall>ch \<in> set w. (of_char (CHR ''a'') :: nat) \<le> of_char ch \<and>
        (of_char ch :: nat) \<le> of_char (CHR ''z''))"

definition valid_words :: "string list \<Rightarrow> bool" where
  "valid_words words \<longleftrightarrow> (\<forall>w \<in> set words. valid_word w)"

text \<open>
  The three loops over the positions \<open>c = 0 .. 4\<close> in the body of
  \<open>ComputeWordPatternMatches\<close>, one function per loop body. The state is the pair
  \<open>(pattern, letters_left)\<close>; \<open>letters_left\<close> is declared outside the loops over
  the word pairs, so it is an input of the body and handed on to the next pair.
\<close>

fun count_unmatched :: "string \<Rightarrow> string \<Rightarrow> nat \<Rightarrow> nat \<times> nat list \<Rightarrow> nat \<times> nat list" where
  "count_unmatched guess answer c (pattern, letters_left) =
     (if guess ! c = answer ! c then (pattern + shift c * 2, letters_left)
      else (pattern, letters_left[letter (answer ! c) := letters_left ! letter (answer ! c) + 1]))"

fun credit_present :: "string \<Rightarrow> string \<Rightarrow> nat \<Rightarrow> nat \<times> nat list \<Rightarrow> nat \<times> nat list" where
  "credit_present guess answer c (pattern, letters_left) =
     (if guess ! c \<noteq> answer ! c then
        (if letters_left ! letter (guess ! c) > 0
         then (pattern + shift c * 1,
               letters_left[letter (guess ! c) := letters_left ! letter (guess ! c) - 1])
         else (pattern, letters_left))
      else (pattern, letters_left))"

fun reset_letters :: "string \<Rightarrow> nat \<Rightarrow> nat \<times> nat list \<Rightarrow> nat \<times> nat list" where
  "reset_letters answer c (pattern, letters_left) =
     (pattern, letters_left[letter (answer ! c) := 0])"

definition encode_body :: "string \<Rightarrow> string \<Rightarrow> nat list \<Rightarrow> nat \<times> nat list" where
  "encode_body guess answer letters_left =
     fold (reset_letters answer) [0..<5]
       (fold (credit_present guess answer) [0..<5]
          (fold (count_unmatched guess answer) [0..<5] (0, letters_left)))"

text \<open>
  \<open>encode\<close> is the pattern the body computes for a pair of words when it starts from the
  zeroed counters, as the first pair does.
\<close>

definition encode :: "string \<Rightarrow> string \<Rightarrow> nat" where
  "encode guess answer = fst (encode_body guess answer (replicate 26 0))"

text \<open>The body of the loop over \<open>j\<close>, and \<open>ComputeWordPatternMatches\<close> itself.\<close>

fun mark_pair :: "string list \<Rightarrow> nat \<Rightarrow> nat \<Rightarrow> bool list list list \<times> nat list
    \<Rightarrow> bool list list list \<times> nat list" where
  "mark_pair words i j (all_word_pattern_matches, letters_left) =
     (let (pattern, letters_left') = encode_body (words ! i) (words ! j) letters_left
      in (all_word_pattern_matches
            [i := (all_word_pattern_matches ! i)
               [pattern := (all_word_pattern_matches ! i ! pattern)[j := True]]],
          letters_left'))"

definition ComputeWordPatternMatches :: "string list \<Rightarrow> bool list list list" where
  "ComputeWordPatternMatches words =
     fst (fold (\<lambda>i. fold (mark_pair words i) [0..<length words]) [0..<length words]
            (replicate (length words) (replicate kNumPatterns (replicate (length words) False)),
             replicate 26 0))"

text \<open>
  \<open>ToPatternInt\<close>. The two \<open>assert\<close>s abort the program; \<open>None\<close> is the abort. The state
  of the loop is \<open>(result, shift)\<close>.
\<close>

fun ToPatternInt_loop :: "string \<Rightarrow> nat \<times> nat \<Rightarrow> nat option" where
  "ToPatternInt_loop [] (result, shft) = Some result"
| "ToPatternInt_loop (ch # rest) (result, shft) =
     (if ch = CHR ''g'' then ToPatternInt_loop rest (result + shft * 2, shft * 3)
      else if ch = CHR ''y'' then ToPatternInt_loop rest (result + shft * 1, shft * 3)
      else if ch = CHR ''_'' then ToPatternInt_loop rest (result, shft * 3)
      else None)"

definition ToPatternInt :: "string \<Rightarrow> nat option" where
  "ToPatternInt pattern =
     (if length pattern = 5 then ToPatternInt_loop pattern (0, 1) else None)"

section \<open>The split of the first guesses over the workers\<close>

text \<open>
  The loop of \<open>main\<close> that starts the workers: worker \<open>thread\<close> gets the first guesses
  \<open>[start, end)\<close>. The products are computed in \<open>size_t\<close> and do not wrap.
\<close>

definition kNumThreads :: nat where
  "kNumThreads = 24"

definition thread_ranges :: "nat \<Rightarrow> (nat \<times> nat) list" where
  "thread_ranges V =
     map (\<lambda>thread. (V * thread div kNumThreads, V * (thread + 1) div kNumThreads)) [0..<kNumThreads]"

section \<open>Trimming and the search\<close>

text \<open>
  The search computes with C++ \<open>float\<close>. No model of floating-point arithmetic is
  fixed here: the operations the program uses are the fields of a record, and the
  theorems hold for every such record (the theorem on the best first guess assumes that
  the comparisons order the values of the candidates). \<open>to_float\<close> is the conversion of an \<open>int\<close> (never
  negative in this program) to \<open>float\<close>; \<open>f_less\<close> and \<open>f_eq\<close> are \<open><\<close> and \<open>==\<close>.
\<close>

record 'f float_ops =
  to_float :: "nat \<Rightarrow> 'f"
  f_add :: "'f \<Rightarrow> 'f \<Rightarrow> 'f"
  f_mul :: "'f \<Rightarrow> 'f \<Rightarrow> 'f"
  f_div :: "'f \<Rightarrow> 'f \<Rightarrow> 'f"
  f_less :: "'f \<Rightarrow> 'f \<Rightarrow> bool"
  f_eq :: "'f \<Rightarrow> 'f \<Rightarrow> bool"

text \<open>
  \<open>TrimWordPatternMatches\<close>: the innermost loop counts the entries of a pattern that are
  set, and the pattern is appended to the row of its word when the count is positive.
\<close>

fun count_match :: "bool \<Rightarrow> nat \<Rightarrow> nat" where
  "count_match val num_matches = (if val then num_matches + 1 else num_matches)"

fun keep_pattern :: "bool list \<Rightarrow> bool list list \<Rightarrow> bool list list" where
  "keep_pattern pattern row =
     (let num_matches = fold count_match pattern 0
      in if num_matches > 0 then row @ [pattern] else row)"

definition TrimWordPatternMatches :: "bool list list list \<Rightarrow> bool list list list" where
  "TrimWordPatternMatches all_word_pattern_matches =
     map (\<lambda>i. fold keep_pattern (all_word_pattern_matches ! i) [])
       [0..<length all_word_pattern_matches]"

text \<open>
  \<open>Recurse\<close>. The scratch buffers \<open>all_words_left\<close> are passed by reference and written
  in place; the model hands them on as a value and returns them with the result.
  \<open>words_left\<close> and \<open>next_words_left\<close> are references to the elements \<open>num_guesses - 1\<close>
  and \<open>num_guesses\<close> of \<open>all_words_left\<close>, so the model reads and writes
  \<open>all_words_left\<close> itself. A result \<open>std::nullopt\<close> is \<open>None\<close>, a value \<open>Some\<close> of it.

  The innermost loop writes the words of the working set that match \<open>pattern\<close> to the
  front of the next buffer and counts them.
\<close>

fun Recurse_partition :: "nat \<Rightarrow> bool list \<Rightarrow> nat \<Rightarrow> nat list list \<times> nat \<Rightarrow> nat list list \<times> nat" where
  "Recurse_partition num_guesses pattern i (all_words_left, new_num_words_left) =
     (let word = all_words_left ! (num_guesses - 1) ! i
      in if pattern ! word
         then (all_words_left[num_guesses := (all_words_left ! num_guesses)[new_num_words_left := word]],
               new_num_words_left + 1)
         else (all_words_left, new_num_words_left))"

text \<open>
  The loop over the patterns of the candidate \<open>next_word\<close>, on the state
  \<open>(result, all_words_left)\<close>. Its outcome is \<open>(valid, result, all_words_left)\<close>, with
  \<open>valid = False\<close> after the \<open>break\<close>. The argument \<open>rec\<close> is the recursive call
  \<open>Recurse (num_guesses + 1)\<close>; the outer \<open>option\<close> is \<open>None\<close> when that call does not
  return.
\<close>

fun Recurse_patterns :: "'f float_ops \<Rightarrow> (nat list list \<Rightarrow> nat \<Rightarrow> ('f option \<times> nat list list) option)
    \<Rightarrow> nat \<Rightarrow> nat \<Rightarrow> nat \<Rightarrow> bool list list \<Rightarrow> 'f \<times> nat list list
    \<Rightarrow> (bool \<times> 'f \<times> nat list list) option" where
  "Recurse_patterns ops rec num_guesses num_words_left next_word [] (result, all_words_left) =
     Some (True, result, all_words_left)"
| "Recurse_patterns ops rec num_guesses num_words_left next_word (pattern # rest) (result, all_words_left) =
     (case fold (Recurse_partition num_guesses pattern) [0..<num_words_left] (all_words_left, 0) of
        (all_words_left1, new_num_words_left) \<Rightarrow>
          if new_num_words_left > 0 then
            if all_words_left1 ! num_guesses ! 0 = next_word then
              Recurse_patterns ops rec num_guesses num_words_left next_word rest
                (f_add ops result (f_mul ops (to_float ops new_num_words_left) (to_float ops 1)),
                 all_words_left1)
            else
              (case rec all_words_left1 new_num_words_left of
                 None \<Rightarrow> None
               | Some (None, all_words_left2) \<Rightarrow> Some (False, result, all_words_left2)
               | Some (Some next_result, all_words_left2) \<Rightarrow>
                   Recurse_patterns ops rec num_guesses num_words_left next_word rest
                     (f_add ops result
                        (f_mul ops (to_float ops new_num_words_left)
                           (f_add ops (to_float ops 1) next_result)),
                      all_words_left2))
          else Recurse_patterns ops rec num_guesses num_words_left next_word rest
                 (result, all_words_left1))"

text \<open>
  The loop over \<open>next\<close>, on the state \<open>(min_expected, all_words_left)\<close>.
\<close>

fun Recurse_candidates :: "'f float_ops \<Rightarrow> (nat list list \<Rightarrow> nat \<Rightarrow> ('f option \<times> nat list list) option)
    \<Rightarrow> nat \<Rightarrow> nat \<Rightarrow> bool list list list \<Rightarrow> nat list \<Rightarrow> 'f option \<times> nat list list
    \<Rightarrow> ('f option \<times> nat list list) option" where
  "Recurse_candidates ops rec num_guesses num_words_left word_pattern_matches []
       (min_expected, all_words_left) = Some (min_expected, all_words_left)"
| "Recurse_candidates ops rec num_guesses num_words_left word_pattern_matches (next # rest)
       (min_expected, all_words_left) =
     (let next_word = all_words_left ! (num_guesses - 1) ! next
      in case Recurse_patterns ops rec num_guesses num_words_left next_word
                (word_pattern_matches ! next_word) (to_float ops 0, all_words_left) of
           None \<Rightarrow> None
         | Some (valid, result, all_words_left') \<Rightarrow>
             if valid then
               (let result' = f_div ops result (to_float ops num_words_left)
                in Recurse_candidates ops rec num_guesses num_words_left word_pattern_matches rest
                     (if min_expected = None \<or> f_less ops result' (the min_expected)
                      then Some result' else min_expected,
                      all_words_left'))
             else Recurse_candidates ops rec num_guesses num_words_left word_pattern_matches rest
                    (min_expected, all_words_left'))"

text \<open>
  The two loops are monotone in the recursive call; this is what the definition of
  \<open>Recurse\<close> as a partial function needs.
\<close>

lemma Recurse_patterns_mono:
  assumes "\<And>a n. rec1 a n = None \<or> rec1 a n = rec2 a n"
  shows "Recurse_patterns ops rec1 ng nwl w ps s = None
       \<or> Recurse_patterns ops rec1 ng nwl w ps s = Recurse_patterns ops rec2 ng nwl w ps s"
proof (induction ps arbitrary: s)
  case Nil
  then show ?case by (cases s) simp
next
  case (Cons p ps)
  obtain result awl where s: "s = (result, awl)" by (cases s)
  obtain awl1 n where part: "fold (Recurse_partition ng p) [0..<nwl] (awl, 0) = (awl1, n)"
    by (cases "fold (Recurse_partition ng p) [0..<nwl] (awl, 0)")
  show ?case
  proof (cases "n > 0 \<and> awl1 ! ng ! 0 \<noteq> w")
    case False
    then show ?thesis
      using Cons.IH [of "(result, awl1)"]
        Cons.IH [of "(f_add ops result (f_mul ops (to_float ops n) (to_float ops 1)), awl1)"]
      by (auto simp: s part)
  next
    case True
    show ?thesis
    proof (cases "rec1 awl1 n")
      case None
      then show ?thesis using True by (simp add: s part)
    next
      case (Some r)
      then have eq: "rec2 awl1 n = Some r"
        using assms [of awl1 n] by simp
      obtain nr awl2 where r: "r = (nr, awl2)" by (cases r)
      show ?thesis
      proof (cases nr)
        case None
        then show ?thesis using True Some eq r by (simp add: s part)
      next
        case (Some x)
        then show ?thesis
          using True \<open>rec1 awl1 n = Some r\<close> eq r
            Cons.IH [of "(f_add ops result (f_mul ops (to_float ops n)
                           (f_add ops (to_float ops 1) x)), awl2)"]
          by (simp add: s part)
      qed
    qed
  qed
qed

lemma Recurse_candidates_mono:
  assumes "\<And>a n. rec1 a n = None \<or> rec1 a n = rec2 a n"
  shows "Recurse_candidates ops rec1 ng nwl wpm nexts s = None
       \<or> Recurse_candidates ops rec1 ng nwl wpm nexts s = Recurse_candidates ops rec2 ng nwl wpm nexts s"
proof (induction nexts arbitrary: s)
  case Nil
  then show ?case by (cases s) simp
next
  case (Cons x xs)
  obtain m awl where s: "s = (m, awl)" by (cases s)
  define w where "w = awl ! (ng - 1) ! x"
  have p: "Recurse_patterns ops rec1 ng nwl w (wpm ! w) (to_float ops 0, awl) = None
       \<or> Recurse_patterns ops rec1 ng nwl w (wpm ! w) (to_float ops 0, awl)
           = Recurse_patterns ops rec2 ng nwl w (wpm ! w) (to_float ops 0, awl)"
    using assms by (rule Recurse_patterns_mono)
  show ?case
  proof (cases "Recurse_patterns ops rec1 ng nwl w (wpm ! w) (to_float ops 0, awl)")
    case None
    then show ?thesis by (simp add: s w_def)
  next
    case (Some r)
    then have eq: "Recurse_patterns ops rec2 ng nwl w (wpm ! w) (to_float ops 0, awl) = Some r"
      using p by simp
    obtain valid result awl' where r: "r = (valid, result, awl')" by (cases r)
    show ?thesis
      using Some eq r Cons.IH [of "(m, awl')"]
        Cons.IH [of "(if m = None \<or> f_less ops (f_div ops result (to_float ops nwl)) (the m)
                      then Some (f_div ops result (to_float ops nwl)) else m, awl')"]
      unfolding w_def by (simp add: s Let_def)
  qed
qed

lemma Recurse_candidates_mono_option [partial_function_mono]:
  fixes rec :: "('x \<Rightarrow> 'y option) \<Rightarrow> nat list list \<Rightarrow> nat \<Rightarrow> ('f option \<times> nat list list) option"
  assumes "\<And>a n. mono_option (\<lambda>f. rec f a n)"
  shows "mono_option (\<lambda>f. Recurse_candidates ops (rec f) ng nwl wpm nexts s)"
proof (rule monotoneI)
  fix f g :: "'x \<Rightarrow> 'y option"
  assume fg: "fun_ord option_ord f g"
  have "option_ord (rec f a n) (rec g a n)" for a n
    by (rule monotoneD [where f = "\<lambda>f. rec f a n", OF assms fg])
  then have "rec f a n = None \<or> rec f a n = rec g a n" for a n
    by (simp add: flat_ord_def)
  then show "option_ord (Recurse_candidates ops (rec f) ng nwl wpm nexts s)
               (Recurse_candidates ops (rec g) ng nwl wpm nexts s)"
    unfolding flat_ord_def by (rule Recurse_candidates_mono)
qed

text \<open>
  \<open>Recurse\<close> compares \<open>num_guesses\<close> with \<open>max_num_guesses\<close> by equality only; called with
  \<open>num_guesses > max_num_guesses\<close> the recursion need not end. The function is therefore
  partial, and \<open>None\<close> stands for a call that does not return.
\<close>

partial_function (option) Recurse :: "'f float_ops \<Rightarrow> nat \<Rightarrow> nat \<Rightarrow> nat list list \<Rightarrow> nat
    \<Rightarrow> bool list list list \<Rightarrow> ('f option \<times> nat list list) option" where
  "Recurse ops num_guesses max_num_guesses all_words_left num_words_left word_pattern_matches =
     (if num_guesses = max_num_guesses then Some (None, all_words_left)
      else if num_words_left = 1 then Some (Some (to_float ops 1), all_words_left)
      else Recurse_candidates ops
             (\<lambda>all_words_left' new_num_words_left.
                Recurse ops (num_guesses + 1) max_num_guesses all_words_left' new_num_words_left
                  word_pattern_matches)
             num_guesses num_words_left word_pattern_matches [0..<num_words_left]
             (None, all_words_left))"

text \<open>The equation of \<open>Recurse\<close> is used to evaluate it on concrete inputs.\<close>

declare Recurse.simps [code]

section \<open>The workers\<close>

text \<open>
  The variables shared by the workers: the log \<open>fout\<close> and the best candidate so far.
  \<open>best_word\<close> is not initialised by \<open>main\<close>; it is read only when \<open>min_expected\<close>
  holds a value.
\<close>

record 'f shared =
  fout :: "('f \<times> string) list"
  min_expected :: "'f option"
  best_word :: nat

text \<open>
  \<open>Thread\<close>: the loop over the words that fills buffer 0, the loop over the patterns
  of \<open>first_word\<close> (\<open>num_words\<close> is \<open>words.size()\<close>), the section under the lock
  (\<open>Thread_report\<close>), the body of the loop over \<open>first_word\<close>, and the loop.
\<close>

fun Thread_partition :: "bool list \<Rightarrow> nat \<Rightarrow> nat list list \<times> nat \<Rightarrow> nat list list \<times> nat" where
  "Thread_partition pattern word (all_words_left, new_num_words_left) =
     (if pattern ! word
      then (all_words_left[0 := (all_words_left ! 0)[new_num_words_left := word]],
            new_num_words_left + 1)
      else (all_words_left, new_num_words_left))"

fun Thread_patterns :: "'f float_ops \<Rightarrow> nat \<Rightarrow> nat \<Rightarrow> bool list list list \<Rightarrow> nat \<Rightarrow> bool list list
    \<Rightarrow> 'f \<times> nat list list \<Rightarrow> (bool \<times> 'f \<times> nat list list) option" where
  "Thread_patterns ops max_num_guesses num_words word_pattern_matches first_word []
       (result, all_words_left) = Some (True, result, all_words_left)"
| "Thread_patterns ops max_num_guesses num_words word_pattern_matches first_word (pattern # rest)
       (result, all_words_left) =
     (case fold (Thread_partition pattern) [0..<num_words] (all_words_left, 0) of
        (all_words_left1, new_num_words_left) \<Rightarrow>
          if all_words_left1 ! 0 ! 0 = first_word then
            Thread_patterns ops max_num_guesses num_words word_pattern_matches first_word rest
              (f_add ops result (f_mul ops (to_float ops new_num_words_left) (to_float ops 1)),
               all_words_left1)
          else
            (case Recurse ops 1 max_num_guesses all_words_left1 new_num_words_left
                    word_pattern_matches of
               None \<Rightarrow> None
             | Some (None, all_words_left2) \<Rightarrow> Some (False, result, all_words_left2)
             | Some (Some next_result, all_words_left2) \<Rightarrow>
                 Thread_patterns ops max_num_guesses num_words word_pattern_matches first_word rest
                   (f_add ops result
                      (f_mul ops (to_float ops new_num_words_left)
                         (f_add ops (to_float ops 1) next_result)),
                    all_words_left2)))"

definition Thread_report :: "'f float_ops \<Rightarrow> string list \<Rightarrow> nat \<Rightarrow> 'f \<Rightarrow> 'f shared \<Rightarrow> 'f shared" where
  "Thread_report ops words first_word result sh =
     (let sh1 = sh\<lparr>fout := fout sh @ [(result, words ! first_word)]\<rparr>
      in if min_expected sh1 = None \<or> f_less ops result (the (min_expected sh1)) \<or>
            (f_eq ops result (the (min_expected sh1)) \<and> first_word < best_word sh1)
         then sh1\<lparr>min_expected := Some result, best_word := first_word\<rparr>
         else sh1)"

definition Thread_body :: "'f float_ops \<Rightarrow> nat \<Rightarrow> string list \<Rightarrow> bool list list list \<Rightarrow> nat
    \<Rightarrow> nat list list \<times> 'f shared \<Rightarrow> (nat list list \<times> 'f shared) option" where
  "Thread_body ops max_num_guesses words word_pattern_matches first_word = (\<lambda>(all_words_left, sh).
     case Thread_patterns ops max_num_guesses (length words) word_pattern_matches first_word
            (word_pattern_matches ! first_word) (to_float ops 0, all_words_left) of
       None \<Rightarrow> None
     | Some (valid, result, all_words_left') \<Rightarrow>
         Some (all_words_left',
               if valid
               then Thread_report ops words first_word
                      (f_div ops result (to_float ops (length words))) sh
               else sh))"

fun Thread_loop :: "'f float_ops \<Rightarrow> nat \<Rightarrow> string list \<Rightarrow> bool list list list \<Rightarrow> nat list
    \<Rightarrow> nat list list \<times> 'f shared \<Rightarrow> (nat list list \<times> 'f shared) option" where
  "Thread_loop ops max_num_guesses words word_pattern_matches [] s = Some s"
| "Thread_loop ops max_num_guesses words word_pattern_matches (first_word # rest) s =
     (case Thread_body ops max_num_guesses words word_pattern_matches first_word s of
        None \<Rightarrow> None
      | Some s' \<Rightarrow> Thread_loop ops max_num_guesses words word_pattern_matches rest s')"

definition Thread :: "nat \<Rightarrow> nat \<Rightarrow> 'f float_ops \<Rightarrow> nat \<Rightarrow> string list \<Rightarrow> bool list list list
    \<Rightarrow> 'f shared \<Rightarrow> 'f shared option" where
  "Thread start end ops max_num_guesses words word_pattern_matches sh =
     map_option snd
       (Thread_loop ops max_num_guesses words word_pattern_matches [start..<end]
          (replicate max_num_guesses (replicate (length words) 0), sh))"

text \<open>
  \<open>main\<close> starts one thread per range of \<open>thread_ranges\<close>; each thread allocates its
  own buffers (\<open>max_num_guesses\<close> vectors of \<open>words.size()\<close> zeros) and runs its loop over
  \<open>first_word\<close>. A worker is modelled by the first guesses it has still to try and its
  buffers.

  The workers share only \<open>fout\<close>, \<open>min_expected\<close> and \<open>best_word\<close>, and touch them only
  inside the section guarded by the mutex, at the end of an iteration; the rest of an
  iteration reads the immutable tables and writes the worker's own buffers. An execution
  of the workers is therefore an interleaving of whole iterations: \<open>workers_run\<close> relates
  a configuration to those reachable by letting, again and again, any worker that has
  first guesses left perform its next iteration. The threads are joined when no worker
  has a first guess left.
\<close>

definition main_workers :: "nat \<Rightarrow> string list \<Rightarrow> (nat list \<times> nat list list) list" where
  "main_workers max_num_guesses words =
     map (\<lambda>(start, end). ([start..<end], replicate max_num_guesses (replicate (length words) 0)))
       (thread_ranges (length words))"

inductive workers_run :: "'f float_ops \<Rightarrow> nat \<Rightarrow> string list \<Rightarrow> bool list list list
    \<Rightarrow> (nat list \<times> nat list list) list \<times> 'f shared
    \<Rightarrow> (nat list \<times> nat list list) list \<times> 'f shared \<Rightarrow> bool"
  for ops :: "'f float_ops" and max_num_guesses :: nat and words :: "string list"
    and word_pattern_matches :: "bool list list list" where
  finished: "workers_run ops max_num_guesses words word_pattern_matches c c"
| iteration: "workers_run ops max_num_guesses words word_pattern_matches c (workers, sh) \<Longrightarrow>
     t < length workers \<Longrightarrow> workers ! t = (first_word # rest, all_words_left) \<Longrightarrow>
     Thread_body ops max_num_guesses words word_pattern_matches first_word (all_words_left, sh)
       = Some (all_words_left', sh') \<Longrightarrow>
     workers_run ops max_num_guesses words word_pattern_matches c
       (workers[t := (rest, all_words_left')], sh')"

section \<open>Auxiliary notions for the proofs\<close>

text \<open>
  \<open>digit p c\<close> is the base-3 digit of the pattern \<open>p\<close> at position \<open>c\<close>: 0 no match,
  1 present elsewhere, 2 exact match.
\<close>

definition digit :: "nat \<Rightarrow> nat \<Rightarrow> nat" where
  "digit p c = (p div 3 ^ c) mod 3"

text \<open>
  The run of the encoding from the zeroed counters, cut into its passes:
  \<open>after_pass1\<close> is the state after the first loop, \<open>pass2_state \<dots> n\<close> the state after
  \<open>n\<close> iterations of the second loop, and \<open>present_at \<dots> c\<close> says that iteration \<open>c\<close> of
  the second loop finds its counter positive and grants the credit. \<open>exact_sum\<close> and
  \<open>unmatched\<close> describe what the first loop has added to the pattern and to the counter
  of letter \<open>k\<close>; \<open>feedback\<close> is the digit the two loops give position \<open>c\<close>.
\<close>

definition unmatched :: "string \<Rightarrow> string \<Rightarrow> nat \<Rightarrow> nat \<Rightarrow> nat" where
  "unmatched guess answer n k =
     length (filter (\<lambda>c. guess ! c \<noteq> answer ! c \<and> letter (answer ! c) = k) [0..<n])"

definition exact_sum :: "string \<Rightarrow> string \<Rightarrow> nat \<Rightarrow> nat" where
  "exact_sum guess answer n = (\<Sum>c<n. if guess ! c = answer ! c then shift c * 2 else 0)"

definition after_pass1 :: "string \<Rightarrow> string \<Rightarrow> nat \<times> nat list" where
  "after_pass1 guess answer = fold (count_unmatched guess answer) [0..<5] (0, replicate 26 0)"

definition pass2_state :: "string \<Rightarrow> string \<Rightarrow> nat \<Rightarrow> nat \<times> nat list" where
  "pass2_state guess answer n = fold (credit_present guess answer) [0..<n] (after_pass1 guess answer)"

definition present_at :: "string \<Rightarrow> string \<Rightarrow> nat \<Rightarrow> bool" where
  "present_at guess answer c \<longleftrightarrow>
     guess ! c \<noteq> answer ! c \<and> snd (pass2_state guess answer c) ! letter (guess ! c) > 0"

definition feedback :: "string \<Rightarrow> string \<Rightarrow> nat \<Rightarrow> nat" where
  "feedback guess answer c =
     (if guess ! c = answer ! c then 2 else if present_at guess answer c then 1 else 0)"

text \<open>
  \<open>credits guess pattern l\<close> counts the positions of the letter \<open>l\<close> in the guess to which
  the pattern gives a credit, exact or present elsewhere.
\<close>

definition credits :: "string \<Rightarrow> nat \<Rightarrow> char \<Rightarrow> nat" where
  "credits guess pattern l =
     length (filter (\<lambda>c. guess ! c = l \<and> digit pattern c \<noteq> 0) [0..<5])"

text \<open>
  The invariant of the loops of \<open>ComputeWordPatternMatches\<close>: the table has its full
  shape, and exactly the pairs before \<open>(i, j)\<close> are marked, each under its pattern.
\<close>

definition table_upto :: "string list \<Rightarrow> nat \<Rightarrow> nat \<Rightarrow> bool list list list \<Rightarrow> bool" where
  "table_upto words i j t \<longleftrightarrow>
     length t = length words \<and>
     (\<forall>g<length words. length (t ! g) = kNumPatterns \<and>
        (\<forall>p<kNumPatterns. length (t ! g ! p) = length words \<and>
           (\<forall>a<length words. t ! g ! p ! a \<longleftrightarrow>
              (g < i \<or> (g = i \<and> a < j)) \<and> encode (words ! g) (words ! a) = p)))"

text \<open>The value of a symbol of a pattern string, and the string of a pattern.\<close>

definition symbol_value :: "char \<Rightarrow> nat" where
  "symbol_value ch = (if ch = CHR ''g'' then 2 else if ch = CHR ''y'' then 1 else 0)"

definition pattern_string :: "nat \<Rightarrow> string" where
  "pattern_string p = map (\<lambda>c. ''_yg'' ! digit p c) [0..<5]"

text \<open>
  A pattern with a member, and the members of a pattern within a working set, in the
  order of the working set.
\<close>

definition nonempty_pattern :: "bool list \<Rightarrow> bool" where
  "nonempty_pattern pattern \<longleftrightarrow> (\<exists>w<length pattern. pattern ! w)"

definition subset_of :: "bool list \<Rightarrow> nat list \<Rightarrow> nat list" where
  "subset_of pattern ws = filter (\<lambda>w. pattern ! w) ws"

text \<open>
  For the worked examples: exact rational arithmetic in the place of \<open>float\<close>, and a
  vocabulary of two words.
\<close>

definition rat_ops :: "rat float_ops" where
  "rat_ops = \<lparr>to_float = of_nat, f_add = (+), f_mul = (*), f_div = (/), f_less = (<), f_eq = (=)\<rparr>"

definition two_words :: "string list" where
  "two_words = [''abcde'', ''fghij'']"

section \<open>The search as the specification describes it\<close>

text \<open>
  The minimiser of the specification, on lists of word indices and without scratch
  buffers: \<open>minimax_expected ops table budget ws\<close> is the expected number of guesses
  for the working set \<open>ws\<close> when \<open>budget\<close> guesses remain, \<open>None\<close> when no guess
  guarantees a win. \<open>spec_patterns\<close> accumulates \<open>subset_size * branch_cost\<close> over the
  patterns of the candidate \<open>w\<close> and is \<open>None\<close> once a branch cannot be won;
  \<open>candidate_value\<close> divides by the size of the working set; \<open>min_valid\<close> keeps the first
  minimum of the candidates that were not discarded. \<open>Recurse\<close> is proved to compute
  \<open>minimax_expected\<close> (lemma \<open>Recurse_refines_minimax\<close>).
\<close>

fun spec_patterns :: "'f float_ops \<Rightarrow> (nat list \<Rightarrow> 'f option) \<Rightarrow> nat \<Rightarrow> nat list \<Rightarrow> bool list list
    \<Rightarrow> 'f \<Rightarrow> 'f option" where
  "spec_patterns ops rec w ws [] acc = Some acc"
| "spec_patterns ops rec w ws (p # ps) acc =
     (if subset_of p ws = [] then spec_patterns ops rec w ws ps acc
      else if hd (subset_of p ws) = w then
        spec_patterns ops rec w ws ps
          (f_add ops acc (f_mul ops (to_float ops (length (subset_of p ws))) (to_float ops 1)))
      else
        (case rec (subset_of p ws) of
           None \<Rightarrow> None
         | Some r \<Rightarrow>
             spec_patterns ops rec w ws ps
               (f_add ops acc
                  (f_mul ops (to_float ops (length (subset_of p ws)))
                     (f_add ops (to_float ops 1) r)))))"

definition candidate_value :: "'f float_ops \<Rightarrow> (nat list \<Rightarrow> 'f option) \<Rightarrow> bool list list list
    \<Rightarrow> nat list \<Rightarrow> nat \<Rightarrow> 'f option" where
  "candidate_value ops rec table ws w =
     map_option (\<lambda>acc. f_div ops acc (to_float ops (length ws)))
       (spec_patterns ops rec w ws (table ! w) (to_float ops 0))"

definition keep_min :: "'f float_ops \<Rightarrow> 'f option \<Rightarrow> 'f \<Rightarrow> 'f option" where
  "keep_min ops m r = (if m = None \<or> f_less ops r (the m) then Some r else m)"

fun min_valid :: "'f float_ops \<Rightarrow> 'f option list \<Rightarrow> 'f option \<Rightarrow> 'f option" where
  "min_valid ops [] m = m"
| "min_valid ops (None # vs) m = min_valid ops vs m"
| "min_valid ops (Some r # vs) m = min_valid ops vs (keep_min ops m r)"

primrec minimax_expected :: "'f float_ops \<Rightarrow> bool list list list \<Rightarrow> nat \<Rightarrow> nat list \<Rightarrow> 'f option" where
  "minimax_expected ops table 0 = (\<lambda>ws. None)"
| "minimax_expected ops table (Suc budget) = (\<lambda>ws.
     if length ws = 1 then Some (to_float ops 1)
     else min_valid ops (map (candidate_value ops (minimax_expected ops table budget) table ws) ws) None)"

text \<open>
  \<open>frame n awl awl'\<close>: the buffers \<open>awl'\<close> have the sizes of \<open>awl\<close> and agree with them
  below index \<open>n\<close>. \<open>fits max_num_guesses n awl\<close>: there are at least \<open>max_num_guesses\<close>
  buffers, each with room for \<open>n\<close> words. \<open>refines\<close>: a recursive call computes a function
  of the working set it is given and leaves the buffers below its depth alone.
\<close>

definition frame :: "nat \<Rightarrow> nat list list \<Rightarrow> nat list list \<Rightarrow> bool" where
  "frame n awl awl' \<longleftrightarrow> map length awl' = map length awl \<and> take n awl' = take n awl"

definition fits :: "nat \<Rightarrow> nat \<Rightarrow> nat list list \<Rightarrow> bool" where
  "fits max_num_guesses n awl \<longleftrightarrow>
     max_num_guesses \<le> length awl \<and> (\<forall>k<length awl. n \<le> length (awl ! k))"

definition refines :: "nat \<Rightarrow> nat \<Rightarrow> (nat list list \<Rightarrow> nat \<Rightarrow> ('f option \<times> nat list list) option)
    \<Rightarrow> (nat list \<Rightarrow> 'f option) \<Rightarrow> bool" where
  "refines max_num_guesses ng rec srec \<longleftrightarrow>
     (\<forall>awl n. fits max_num_guesses n awl \<longrightarrow>
        (\<exists>awl'. rec awl n = Some (srec (take n (awl ! (ng - 1))), awl') \<and> frame ng awl awl'))"

text \<open>A table of \<open>V\<close> rows whose patterns all have length \<open>V\<close>.\<close>

definition table_shape :: "nat \<Rightarrow> bool list list list \<Rightarrow> bool" where
  "table_shape V t \<longleftrightarrow> length t = V \<and> (\<forall>g<V. \<forall>p\<in>set (t ! g). length p = V)"

text \<open>
  A vocabulary of four words with its trimmed table, and buffers for a search with a
  budget of three guesses. With one guess made, the first three words are discarded as
  next guesses (each leaves the other two of them in one subset, which two more guesses
  cannot separate in every case), the fourth is not.
\<close>

definition four_words :: "string list" where
  "four_words = [''aaaaa'', ''aaaab'', ''aaaac'', ''bcaaa'']"

definition four_table :: "bool list list list" where
  "four_table = TrimWordPatternMatches (ComputeWordPatternMatches four_words)"

definition four_buffers :: "nat list list" where
  "four_buffers = [[0, 1, 2, 3], [9, 9, 9, 9], [9, 9, 9, 9]]"

text \<open>
  \<open>ordered_on ops S\<close>: on the values in \<open>S\<close> the comparisons of \<open>ops\<close> behave as a strict
  total order with \<open>f_eq\<close> as equality (as \<open><\<close> and \<open>==\<close> do on floats that are not NaN).
  \<open>best_of ops val D sh\<close>: the shared record \<open>sh\<close> holds the least pair of value and word
  index among the candidates in \<open>D\<close> that have a value, and no value if none has.
\<close>

definition ordered_on :: "'f float_ops \<Rightarrow> 'f set \<Rightarrow> bool" where
  "ordered_on ops S \<longleftrightarrow>
     (\<forall>x\<in>S. \<forall>y\<in>S. (f_eq ops x y \<longleftrightarrow> x = y) \<and> (f_less ops x y \<or> x = y \<or> f_less ops y x)
        \<and> \<not> (f_less ops x y \<and> f_less ops y x))
     \<and> (\<forall>x\<in>S. \<forall>y\<in>S. \<forall>z\<in>S. f_less ops x y \<longrightarrow> f_less ops y z \<longrightarrow> f_less ops x z)"

definition best_of :: "'f float_ops \<Rightarrow> (nat \<Rightarrow> 'f option) \<Rightarrow> nat set \<Rightarrow> 'f shared \<Rightarrow> bool" where
  "best_of ops val D sh \<longleftrightarrow>
     (min_expected sh = None \<longrightarrow> (\<forall>w\<in>D. val w = None))
     \<and> (\<forall>v. min_expected sh = Some v \<longrightarrow>
           best_word sh \<in> D \<and> val (best_word sh) = Some v
           \<and> (\<forall>w\<in>D. \<forall>v'. val w = Some v' \<longrightarrow>
                 f_less ops v v' \<or> (v = v' \<and> best_word sh \<le> w)))"

text \<open>
  The invariant of an execution of the workers: the buffers of every worker have their
  full size, the first guesses not yet tried are words of the vocabulary, and the shared
  record is the best of a set \<open>D\<close> that holds every word no longer waiting.
\<close>

definition run_inv :: "'f float_ops \<Rightarrow> (nat \<Rightarrow> 'f option) \<Rightarrow> nat \<Rightarrow> nat
    \<Rightarrow> (nat list \<times> nat list list) list \<times> 'f shared \<Rightarrow> bool" where
  "run_inv ops val max_num_guesses V c \<longleftrightarrow>
     (\<forall>worker\<in>set (fst c). fits max_num_guesses V (snd worker))
     \<and> set (concat (map fst (fst c))) \<subseteq> {..<V}
     \<and> (\<exists>D. D \<subseteq> {..<V} \<and> {..<V} \<subseteq> D \<union> set (concat (map fst (fst c)))
            \<and> best_of ops val D (snd c))"

text \<open>
  The shared record at the start of \<open>main\<close> (with some value for the uninitialised
  \<open>best_word\<close>) and after the iterations for the words 0 and 1 of the two-word
  vocabulary, in both orders.
\<close>

definition two_start :: "rat shared" where
  "two_start = \<lparr>fout = [], min_expected = None, best_word = 7\<rparr>"

definition two_after_0 :: "rat shared" where
  "two_after_0 = \<lparr>fout = [(3 / 2, ''abcde'')], min_expected = Some (3 / 2), best_word = 0\<rparr>"

definition two_after_1 :: "rat shared" where
  "two_after_1 = \<lparr>fout = [(3 / 2, ''fghij'')], min_expected = Some (3 / 2), best_word = 1\<rparr>"

definition two_after_0_1 :: "rat shared" where
  "two_after_0_1 = \<lparr>fout = [(3 / 2, ''abcde''), (3 / 2, ''fghij'')],
     min_expected = Some (3 / 2), best_word = 0\<rparr>"

definition two_after_1_0 :: "rat shared" where
  "two_after_1_0 = \<lparr>fout = [(3 / 2, ''fghij''), (3 / 2, ''abcde'')],
     min_expected = Some (3 / 2), best_word = 0\<rparr>"

section \<open>Properties of the pattern encoding and the table\<close>

lemma shift_power: "shift c = 3 ^ c"
  by (induction c) simp_all

lemma fold_upt_invariant:
  assumes "I 0 s" and "\<And>k t. k < n \<Longrightarrow> I k t \<Longrightarrow> I (Suc k) (f k t)"
  shows "I n (fold f [0..<n] s)"
  using assms
proof (induction n)
  case 0
  then show ?case by simp
next
  case (Suc n)
  have "I n (fold f [0..<n] s)"
    by (rule Suc.IH) (use Suc.prems in auto)
  then show ?case
    using Suc.prems(2) [of n] by simp
qed

lemma map_upt_nth_add0: "length ll = m \<Longrightarrow> map (\<lambda>k. ll ! k + (0::nat)) [0..<m] = ll"
  by (auto intro: nth_equalityI)

lemma pass1_fold:
  assumes "length ll = 26" and "\<forall>c<n. letter (answer ! c) < 26"
  shows "fold (count_unmatched guess answer) [0..<n] (p, ll) =
           (p + exact_sum guess answer n, map (\<lambda>k. ll ! k + unmatched guess answer n k) [0..<26])"
  using assms(2)
proof (induction n)
  case 0
  then show ?case
    using assms(1) map_nth [of ll] by (simp add: exact_sum_def unmatched_def)
next
  case (Suc n)
  then have IH: "fold (count_unmatched guess answer) [0..<n] (p, ll) =
           (p + exact_sum guess answer n, map (\<lambda>k. ll ! k + unmatched guess answer n k) [0..<26])"
    by simp
  have lt: "letter (answer ! n) < 26" using Suc.prems by simp
  show ?case
  proof (cases "guess ! n = answer ! n")
    case True
    then show ?thesis
      by (simp add: IH exact_sum_def unmatched_def)
  next
    case False
    have "(map (\<lambda>k. ll ! k + unmatched guess answer n k) [0..<26])
            [letter (answer ! n) := map (\<lambda>k. ll ! k + unmatched guess answer n k) [0..<26] ! letter (answer ! n) + 1]
          = map (\<lambda>k. ll ! k + unmatched guess answer (Suc n) k) [0..<26]"
      using lt False by (intro nth_equalityI) (auto simp: nth_list_update unmatched_def)
    then show ?thesis
      using False by (simp add: IH exact_sum_def)
  qed
qed

lemma valid_word_letter: "valid_word w \<Longrightarrow> c < 5 \<Longrightarrow> letter (w ! c) < 26"
  by (auto simp: valid_word_def letter_def dest!: bspec [where x = "w ! c"])

lemma after_pass1_eq:
  assumes "valid_word answer"
  shows "after_pass1 guess answer =
           (exact_sum guess answer 5, map (\<lambda>k. unmatched guess answer 5 k) [0..<26])"
proof -
  have "\<forall>c<5. letter (answer ! c) < 26"
    using assms by (simp add: valid_word_letter)
  then have "fold (count_unmatched guess answer) [0..<5] (0, replicate 26 0) =
           (0 + exact_sum guess answer 5, map (\<lambda>k. replicate 26 0 ! k + unmatched guess answer 5 k) [0..<26])"
    by (intro pass1_fold) simp_all
  moreover have "map (\<lambda>k. replicate 26 0 ! k + unmatched guess answer 5 k) [0..<26]
      = map (\<lambda>k. unmatched guess answer 5 k) [0..<26]"
    by (intro nth_equalityI) simp_all
  ultimately show ?thesis by (simp add: after_pass1_def)
qed

lemma pass2_state_0: "pass2_state guess answer 0 = after_pass1 guess answer"
  by (simp add: pass2_state_def)

lemma pass2_state_Suc:
  "pass2_state guess answer (Suc n) =
     (if present_at guess answer n
      then (fst (pass2_state guess answer n) + shift n,
            (snd (pass2_state guess answer n))
              [letter (guess ! n) := snd (pass2_state guess answer n) ! letter (guess ! n) - 1])
      else pass2_state guess answer n)"
  by (cases "fold (credit_present guess answer) [0..<n] (after_pass1 guess answer)")
     (simp add: pass2_state_def present_at_def)

lemma pass2_fst:
  "fst (pass2_state guess answer n) =
     fst (after_pass1 guess answer) + (\<Sum>c<n. if present_at guess answer c then shift c else 0)"
  by (induction n) (simp_all add: pass2_state_0 pass2_state_Suc)

lemma pass2_length:
  "length (snd (pass2_state guess answer n)) = length (snd (after_pass1 guess answer))"
  by (induction n) (simp_all add: pass2_state_0 pass2_state_Suc)

lemma pass2_snd:
  assumes "k < length (snd (after_pass1 guess answer))"
  shows "snd (pass2_state guess answer n) ! k +
           length (filter (\<lambda>c. present_at guess answer c \<and> letter (guess ! c) = k) [0..<n])
         = snd (after_pass1 guess answer) ! k"
proof (induction n)
  case 0
  then show ?case by (simp add: pass2_state_0)
next
  case (Suc n)
  show ?case
  proof (cases "present_at guess answer n \<and> letter (guess ! n) = k")
    case True
    then have "snd (pass2_state guess answer n) ! k > 0"
      by (auto simp: present_at_def)
    then show ?thesis
      using Suc True assms by (simp add: pass2_state_Suc pass2_length)
  next
    case False
    then show ?thesis
      using Suc assms by (auto simp: pass2_state_Suc pass2_length nth_list_update)
  qed
qed

lemma reset_fold:
  "fold (reset_letters answer) [0..<n] (p, ll) =
     (p, map (\<lambda>k. if \<exists>c<n. letter (answer ! c) = k then 0 else ll ! k) [0..<length ll])"
proof (induction n)
  case 0
  then show ?case by (simp add: map_nth)
next
  case (Suc n)
  have "(map (\<lambda>k. if \<exists>c<n. letter (answer ! c) = k then 0 else ll ! k) [0..<length ll])
          [letter (answer ! n) := 0]
        = map (\<lambda>k. if \<exists>c<Suc n. letter (answer ! c) = k then 0 else ll ! k) [0..<length ll]"
  proof (intro nth_equalityI)
    fix i
    assume "i < length ((map (\<lambda>k. if \<exists>c<n. letter (answer ! c) = k then 0 else ll ! k) [0..<length ll])
          [letter (answer ! n) := 0])"
    then have i: "i < length ll" by simp
    show "(map (\<lambda>k. if \<exists>c<n. letter (answer ! c) = k then 0 else ll ! k) [0..<length ll])
          [letter (answer ! n) := 0] ! i
        = map (\<lambda>k. if \<exists>c<Suc n. letter (answer ! c) = k then 0 else ll ! k) [0..<length ll] ! i"
    proof (cases "i = letter (answer ! n)")
      case True
      then show ?thesis using i by auto
    next
      case False
      then have "(\<exists>c<Suc n. letter (answer ! c) = i) = (\<exists>c<n. letter (answer ! c) = i)"
        by (auto simp: less_Suc_eq)
      then show ?thesis using i False by simp
    qed
  qed simp
  then show ?case by (simp add: Suc)
qed

lemma unmatched_0: "\<not> (\<exists>c<n. letter (answer ! c) = k) \<Longrightarrow> unmatched guess answer n k = 0"
  by (auto simp: unmatched_def filter_empty_conv)

lemma pass2_snd_le:
  assumes "valid_word answer" and "k < 26"
  shows "snd (pass2_state guess answer n) ! k \<le> unmatched guess answer 5 k"
proof -
  have "k < length (snd (after_pass1 guess answer))"
    using assms by (simp add: after_pass1_eq)
  from pass2_snd [OF this, of n] show ?thesis
    using assms by (simp add: after_pass1_eq)
qed

lemma encode_body_pass2:
  "encode_body guess answer (replicate 26 0) =
     fold (reset_letters answer) [0..<5] (pass2_state guess answer 5)"
  by (simp add: encode_body_def pass2_state_def after_pass1_def)

lemma encode_body_zeros:
  assumes "valid_word answer"
  shows "encode_body guess answer (replicate 26 0) = (encode guess answer, replicate 26 0)"
proof -
  obtain p ll where s: "pass2_state guess answer 5 = (p, ll)"
    by (cases "pass2_state guess answer 5")
  have len: "length ll = 26"
    using pass2_length [of guess answer 5] assms by (simp add: s after_pass1_eq)
  have le: "ll ! k \<le> unmatched guess answer 5 k" if "k < 26" for k
    using pass2_snd_le [OF assms that, of guess 5] by (simp add: s)
  have "map (\<lambda>k. if \<exists>c<5. letter (answer ! c) = k then 0 else ll ! k) [0..<length ll]
          = replicate 26 0"
  proof (intro nth_equalityI)
    show "length (map (\<lambda>k. if \<exists>c<5. letter (answer ! c) = k then 0 else ll ! k) [0..<length ll])
            = length (replicate 26 (0::nat))"
      by (simp add: len)
  next
    fix i
    assume "i < length (map (\<lambda>k. if \<exists>c<5. letter (answer ! c) = k then 0 else ll ! k) [0..<length ll])"
    then have i: "i < 26" by (simp add: len)
    show "map (\<lambda>k. if \<exists>c<5. letter (answer ! c) = k then 0 else ll ! k) [0..<length ll] ! i
            = replicate 26 0 ! i"
      using le [OF i] unmatched_0 [of 5 answer i guess] i by (auto simp: len)
  qed
  then have "encode_body guess answer (replicate 26 0) = (p, replicate 26 0)"
    by (simp add: encode_body_pass2 s reset_fold)
  then show ?thesis by (simp add: encode_def)
qed

lemma encode_pass2:
  "encode guess answer = fst (pass2_state guess answer 5)"
  by (cases "pass2_state guess answer 5") (simp add: encode_def encode_body_pass2 reset_fold)

lemma encode_feedback:
  assumes "valid_word answer"
  shows "encode guess answer = (\<Sum>c<5. feedback guess answer c * 3 ^ c)"
proof -
  have "encode guess answer =
      exact_sum guess answer 5 + (\<Sum>c<5. if present_at guess answer c then shift c else 0)"
    using assms by (simp add: encode_pass2 pass2_fst after_pass1_eq)
  also have "\<dots> = (\<Sum>c<5. (if guess ! c = answer ! c then shift c * 2 else 0) +
                        (if present_at guess answer c then shift c else 0))"
    unfolding exact_sum_def by (rule sum.distrib [symmetric])
  also have "\<dots> = (\<Sum>c<5. feedback guess answer c * 3 ^ c)"
    by (rule sum.cong) (auto simp: feedback_def shift_power present_at_def)
  finally show ?thesis .
qed

lemma digits_low: "(\<And>i. d i < 3) \<Longrightarrow> (\<Sum>i<n. d i * 3 ^ i) < (3::nat) ^ n"
proof (induction n)
  case 0
  then show ?case by simp
next
  case (Suc n)
  have "d n \<le> 2"
    using Suc.prems [of n] by simp
  then have a: "d n * 3 ^ n \<le> 2 * 3 ^ n"
    by (rule mult_le_mono1)
  have b: "(\<Sum>i<n. d i * 3 ^ i) < 3 ^ n"
    using Suc by simp
  have c: "(\<Sum>i<Suc n. d i * 3 ^ i) = (\<Sum>i<n. d i * 3 ^ i) + d n * 3 ^ n"
    by simp
  have e: "(3::nat) ^ Suc n = 3 ^ n + 2 * 3 ^ n"
    by simp
  show ?case
    unfolding c e using a b by (rule_tac add_less_le_mono)
qed

lemma digit_of_sum:
  assumes "\<And>i. d i < 3" and "c < n"
  shows "digit (\<Sum>i<n. d i * 3 ^ i) c = d c"
  using assms(2)
proof (induction n)
  case 0
  then show ?case by simp
next
  case (Suc n)
  define A where "A = (\<Sum>i<n. d i * 3 ^ i)"
  have sum: "(\<Sum>i<Suc n. d i * 3 ^ i) = A + d n * 3 ^ n"
    by (simp add: A_def)
  show ?case
  proof (cases "c = n")
    case True
    have "A < 3 ^ n" unfolding A_def using assms(1) by (rule digits_low)
    then have "(A + d n * 3 ^ n) div 3 ^ n = d n"
      by simp
    then have "digit (A + d n * 3 ^ n) n = d n"
      using assms(1) [of n] by (simp only: digit_def mod_less)
    then show ?thesis
      using True by (simp only: sum)
  next
    case False
    then have cn: "c < n" using Suc.prems by simp
    define m where "m = n - Suc c"
    have m: "n = c + Suc m"
      using cn by (simp add: m_def)
    have e: "d n * 3 ^ n = (d n * 3 ^ m * 3) * 3 ^ c"
      by (simp add: m power_add)
    have "(A + (d n * 3 ^ m * 3) * 3 ^ c) div 3 ^ c = A div 3 ^ c + d n * 3 ^ m * 3"
      by simp
    then have "(A + d n * 3 ^ n) div 3 ^ c mod 3 = A div 3 ^ c mod 3"
      by (simp only: e mod_mult_self1)
    then have "digit (A + d n * 3 ^ n) c = digit A c"
      by (simp only: digit_def)
    then show ?thesis
      using Suc.IH [OF cn] by (simp only: sum A_def)
  qed
qed

lemma feedback_lt: "feedback guess answer c < 3"
  by (simp add: feedback_def)

lemma digit_encode:
  "valid_word answer \<Longrightarrow> c < 5 \<Longrightarrow> digit (encode guess answer) c = feedback guess answer c"
  by (simp add: encode_feedback digit_of_sum [OF feedback_lt])

lemma encode_less: "valid_word answer \<Longrightarrow> encode guess answer < 243"
  using digits_low [of "feedback guess answer" 5, OF feedback_lt]
  by (simp add: encode_feedback)

lemma length_filter_disj:
  "(\<And>x. x \<in> set xs \<Longrightarrow> \<not> (P x \<and> Q x)) \<Longrightarrow>
     length (filter (\<lambda>x. P x \<or> Q x) xs) = length (filter P xs) + length (filter Q xs)"
  by (induction xs) auto

lemma length_filter_mono:
  "(\<And>x. x \<in> set xs \<Longrightarrow> P x \<Longrightarrow> Q x) \<Longrightarrow> length (filter P xs) \<le> length (filter Q xs)"
  by (induction xs) auto

lemma count_list_nth:
  "count_list xs x = length (filter (\<lambda>i. xs ! i = x) [0..<length xs])"
proof (induction xs rule: rev_induct)
  case Nil
  then show ?case by simp
next
  case (snoc y xs)
  have "filter (\<lambda>i. (xs @ [y]) ! i = x) [0..<length xs] = filter (\<lambda>i. xs ! i = x) [0..<length xs]"
    by (rule filter_cong) (auto simp: nth_append)
  then show ?case
    using snoc by simp
qed

lemma valid_word_nth:
  "valid_word w \<Longrightarrow> c < 5 \<Longrightarrow>
     (of_char (CHR ''a'') :: nat) \<le> of_char (w ! c) \<and> (of_char (w ! c) :: nat) \<le> of_char (CHR ''z'')"
  by (auto simp: valid_word_def dest!: bspec [where x = "w ! c"])

lemma letter_eq_iff:
  assumes "(of_char (CHR ''a'') :: nat) \<le> of_char x" and "(of_char (CHR ''a'') :: nat) \<le> of_char y"
  shows "letter x = letter y \<longleftrightarrow> x = y"
proof
  assume h: "letter x = letter y"
  have "(of_char x :: nat) = of_char y"
    using assms h unfolding letter_def by linarith
  then show "x = y" by (simp only: of_char_eq_iff)
qed simp

lemma present_le_unmatched:
  assumes "valid_word answer" and "k < 26"
  shows "length (filter (\<lambda>c. present_at guess answer c \<and> letter (guess ! c) = k) [0..<5])
           \<le> unmatched guess answer 5 k"
proof -
  have "k < length (snd (after_pass1 guess answer))"
    using assms by (simp add: after_pass1_eq)
  from pass2_snd [OF this, of 5] show ?thesis
    using assms by (simp add: after_pass1_eq)
qed

lemma credits_le_count:
  assumes g: "valid_word guess" and a: "valid_word answer"
  shows "credits guess (encode guess answer) l \<le> count_list answer l"
proof (cases "l \<in> set guess")
  case False
  have "filter (\<lambda>c. guess ! c = l \<and> digit (encode guess answer) c \<noteq> 0) [0..<5] = []"
    using False g by (auto simp: filter_empty_conv valid_word_def)
  then show ?thesis by (simp add: credits_def)
next
  case True
  then have l: "(of_char (CHR ''a'') :: nat) \<le> of_char l" and l26: "letter l < 26"
    using g by (auto simp: valid_word_def letter_def)
  let ?E = "\<lambda>c. guess ! c = answer ! c \<and> answer ! c = l"
  let ?Y = "\<lambda>c. guess ! c = l \<and> present_at guess answer c"
  let ?U = "\<lambda>c. guess ! c \<noteq> answer ! c \<and> answer ! c = l"
  have "filter (\<lambda>c. guess ! c = l \<and> digit (encode guess answer) c \<noteq> 0) [0..<5]
          = filter (\<lambda>c. ?E c \<or> ?Y c) [0..<5]"
    by (rule filter_cong) (auto simp: digit_encode [OF a] feedback_def)
  then have "credits guess (encode guess answer) l = length (filter (\<lambda>c. ?E c \<or> ?Y c) [0..<5])"
    by (simp add: credits_def)
  also have "\<dots> = length (filter ?E [0..<5]) + length (filter ?Y [0..<5])"
    by (rule length_filter_disj) (auto simp: present_at_def)
  also have "length (filter ?Y [0..<5])
      \<le> length (filter (\<lambda>c. present_at guess answer c \<and> letter (guess ! c) = letter l) [0..<5])"
    by (rule length_filter_mono) auto
  also have "\<dots> \<le> unmatched guess answer 5 (letter l)"
    using a l26 by (rule present_le_unmatched)
  also have "unmatched guess answer 5 (letter l) = length (filter ?U [0..<5])"
    unfolding unmatched_def
    by (rule arg_cong [where f = length], rule filter_cong)
       (use valid_word_nth [OF a] l in \<open>auto simp: letter_eq_iff\<close>)
  also have "length (filter ?E [0..<5]) + length (filter ?U [0..<5])
      = length (filter (\<lambda>c. ?E c \<or> ?U c) [0..<5])"
    by (rule length_filter_disj [symmetric]) auto
  also have "\<dots> = length (filter (\<lambda>c. answer ! c = l) [0..<5])"
    by (rule arg_cong [where f = length], rule filter_cong) auto
  also have "\<dots> = count_list answer l"
    using a by (simp add: count_list_nth valid_word_def)
  finally show ?thesis by simp
qed

lemma valid_words_nth: "valid_words words \<Longrightarrow> i < length words \<Longrightarrow> valid_word (words ! i)"
  by (simp add: valid_words_def)

lemma mark_pair_zeros:
  assumes "valid_words words" and "j < length words"
  shows "mark_pair words i j (t, replicate 26 0) =
           (t[i := (t ! i)[encode (words ! i) (words ! j) :=
                (t ! i ! encode (words ! i) (words ! j))[j := True]]], replicate 26 0)"
  using assms by (simp add: encode_body_zeros valid_words_nth)

lemma table_upto_step:
  assumes v: "valid_words words" and i: "i < length words" and j: "j < length words"
    and t: "table_upto words i j t"
  shows "table_upto words i (Suc j)
           (t[i := (t ! i)[encode (words ! i) (words ! j) :=
                (t ! i ! encode (words ! i) (words ! j))[j := True]]])"
proof -
  define e where "e = encode (words ! i) (words ! j)"
  define t' where "t' = t[i := (t ! i)[e := (t ! i ! e)[j := True]]]"
  have e: "e < kNumPatterns"
    using v j by (simp add: e_def kNumPatterns_def encode_less valid_words_nth)
  have len: "length t = length words"
    and len1: "\<And>g. g < length words \<Longrightarrow> length (t ! g) = kNumPatterns"
    and len2: "\<And>g p. g < length words \<Longrightarrow> p < kNumPatterns \<Longrightarrow> length (t ! g ! p) = length words"
    and mem: "\<And>g p a. g < length words \<Longrightarrow> p < kNumPatterns \<Longrightarrow> a < length words \<Longrightarrow>
        t ! g ! p ! a \<longleftrightarrow> (g < i \<or> (g = i \<and> a < j)) \<and> encode (words ! g) (words ! a) = p"
    using t by (simp_all add: table_upto_def)
  have row: "t' ! g = (if g = i then (t ! i)[e := (t ! i ! e)[j := True]] else t ! g)"
    if "g < length words" for g
    using that len by (simp add: t'_def nth_list_update)
  have cell: "t' ! g ! p = (if g = i \<and> p = e then (t ! i ! e)[j := True] else t ! g ! p)"
    if "g < length words" "p < kNumPatterns" for g p
    using that len1 [of i] i by (simp add: row nth_list_update)
  have bit: "t' ! g ! p ! a \<longleftrightarrow> (if g = i \<and> p = e \<and> a = j then True else t ! g ! p ! a)"
    if "g < length words" "p < kNumPatterns" "a < length words" for g p a
    using that len2 [of i e] i e by (simp add: cell nth_list_update)
  have "length t' = length words"
    using len by (simp add: t'_def)
  moreover have "length (t' ! g) = kNumPatterns" if "g < length words" for g
    using that len1 by (simp add: row)
  moreover have "length (t' ! g ! p) = length words" if "g < length words" "p < kNumPatterns" for g p
    using that len2 by (simp add: cell)
  moreover have "t' ! g ! p ! a \<longleftrightarrow>
      (g < i \<or> (g = i \<and> a < Suc j)) \<and> encode (words ! g) (words ! a) = p"
    if "g < length words" "p < kNumPatterns" "a < length words" for g p a
    using that mem [of g p a] by (auto simp: bit e_def less_Suc_eq)
  ultimately show ?thesis
    unfolding table_upto_def t'_def e_def by blast
qed

lemma table_upto_row_done:
  "table_upto words i (length words) t \<longleftrightarrow> table_upto words (Suc i) 0 t"
  unfolding table_upto_def by (auto simp: less_Suc_eq)

lemma table_row_fold:
  assumes v: "valid_words words" and i: "i < length words" and t: "table_upto words i 0 t"
  shows "\<exists>t'. fold (mark_pair words i) [0..<length words] (t, replicate 26 0) = (t', replicate 26 0)
           \<and> table_upto words (Suc i) 0 t'"
proof -
  let ?I = "\<lambda>j s. snd s = replicate 26 (0::nat) \<and> table_upto words i j (fst s)"
  have "?I (length words) (fold (mark_pair words i) [0..<length words] (t, replicate 26 0))"
  proof (rule fold_upt_invariant [where I = ?I])
    show "?I 0 (t, replicate 26 0)" using t by simp
  next
    fix k s
    assume k: "k < length words" and s: "?I k s"
    obtain u ll where u: "s = (u, ll)" by (cases s)
    from s have ll: "ll = replicate 26 0" and tu: "table_upto words i k u"
      by (simp_all add: u)
    show "?I (Suc k) (mark_pair words i k s)"
      unfolding u ll mark_pair_zeros [OF v k] using table_upto_step [OF v i k tu] by simp
  qed
  then show ?thesis
    by (cases "fold (mark_pair words i) [0..<length words] (t, replicate 26 0)")
       (simp add: table_upto_row_done)
qed

lemma table_upto_init:
  "table_upto words 0 0 (replicate (length words) (replicate kNumPatterns (replicate (length words) False)))"
  by (simp add: table_upto_def)

lemma table_upto_ComputeWordPatternMatches:
  assumes v: "valid_words words"
  shows "table_upto words (length words) 0 (ComputeWordPatternMatches words)"
proof -
  let ?I = "\<lambda>i s. snd s = replicate 26 (0::nat) \<and> table_upto words i 0 (fst s)"
  let ?init = "(replicate (length words) (replicate kNumPatterns (replicate (length words) False)),
             replicate 26 (0::nat))"
  have "?I (length words) (fold (\<lambda>i. fold (mark_pair words i) [0..<length words]) [0..<length words] ?init)"
  proof (rule fold_upt_invariant [where I = ?I])
    show "?I 0 ?init" by (simp add: table_upto_init)
  next
    fix k s
    assume k: "k < length words" and s: "?I k s"
    obtain u ll where u: "s = (u, ll)" by (cases s)
    from s u table_row_fold [OF v k, of u]
    show "?I (Suc k) (fold (mark_pair words k) [0..<length words] s)"
      by auto
  qed
  then show ?thesis
    by (simp add: ComputeWordPatternMatches_def)
qed

text \<open>
  Claim C1. For a vocabulary of valid words, the table built by \<open>ComputeWordPatternMatches\<close>
  holds, at guess \<open>g\<close>, pattern \<open>p\<close> below \<open>3^5\<close> and answer \<open>a\<close>, exactly the truth of
  \<open>encode (words ! g) (words ! a) = p\<close>; in particular the answer is a member of the entry of
  its own pattern.
\<close>

theorem ComputeWordPatternMatches_exact:
  assumes "valid_words words" and "g < length words" and "p < kNumPatterns" and "a < length words"
  shows "(ComputeWordPatternMatches words ! g ! p ! a \<longleftrightarrow> encode (words ! g) (words ! a) = p)
    \<and> ComputeWordPatternMatches words ! g ! encode (words ! g) (words ! a) ! a"
proof -
  have t: "table_upto words (length words) 0 (ComputeWordPatternMatches words)"
    using assms(1) by (rule table_upto_ComputeWordPatternMatches)
  have e: "encode (words ! g) (words ! a) < kNumPatterns"
    using assms by (simp add: kNumPatterns_def encode_less valid_words_nth)
  show ?thesis
    using t assms(2-4) e unfolding table_upto_def by simp
qed

lemma ToPatternInt_loop_eq:
  "ToPatternInt_loop s (r, sh) =
     (if \<forall>ch \<in> set s. ch \<in> {CHR ''_'', CHR ''y'', CHR ''g''}
      then Some (r + sh * (\<Sum>i<length s. symbol_value (s ! i) * 3 ^ i)) else None)"
proof (induction s arbitrary: r sh)
  case Nil
  then show ?case by simp
next
  case (Cons ch s)
  have "(\<Sum>i<Suc (length s). symbol_value ((ch # s) ! i) * 3 ^ i)
      = symbol_value ((ch # s) ! 0) * 3 ^ 0
        + (\<Sum>i<length s. symbol_value ((ch # s) ! Suc i) * 3 ^ Suc i)"
    by (rule sum.lessThan_Suc_shift)
  also have "(\<Sum>i<length s. symbol_value ((ch # s) ! Suc i) * 3 ^ Suc i)
      = 3 * (\<Sum>i<length s. symbol_value (s ! i) * 3 ^ i)"
    by (simp add: sum_distrib_left ac_simps)
  finally have shift_sum: "(\<Sum>i<Suc (length s). symbol_value ((ch # s) ! i) * 3 ^ i)
      = symbol_value ch + 3 * (\<Sum>i<length s. symbol_value (s ! i) * 3 ^ i)"
    by simp
  show ?case
    unfolding ToPatternInt_loop.simps Cons.IH length_Cons shift_sum
    by (simp add: symbol_value_def algebra_simps)
qed

lemma digits_mod: "(\<Sum>c<n. digit p c * 3 ^ c) = p mod 3 ^ n"
proof (induction n)
  case 0
  then show ?case by simp
next
  case (Suc n)
  have "p mod (3 ^ n * 3) = 3 ^ n * (p div 3 ^ n mod 3) + p mod 3 ^ n"
    by (rule mod_mult2_eq)
  then show ?case
    using Suc by (simp add: digit_def ac_simps)
qed

lemma digit_lt: "digit p c < 3"
  by (simp add: digit_def)

lemma symbol_value_digit: "d < 3 \<Longrightarrow> symbol_value (''_yg'' ! d) = d"
proof -
  assume "d < 3"
  then consider "d = 0" | "d = 1" | "d = 2" by linarith
  then show ?thesis by cases (simp_all add: symbol_value_def)
qed

lemma symbol_digit_ok: "d < 3 \<Longrightarrow> ''_yg'' ! d \<in> {CHR ''_'', CHR ''y'', CHR ''g''}"
proof -
  assume "d < 3"
  then consider "d = 0" | "d = 1" | "d = 2" by linarith
  then show ?thesis by cases simp_all
qed

lemma ToPatternInt_pattern_string:
  assumes "p < 243"
  shows "ToPatternInt (pattern_string p) = Some p"
proof -
  have len: "length (pattern_string p) = 5"
    by (simp add: pattern_string_def)
  have ok: "\<forall>ch \<in> set (pattern_string p). ch \<in> {CHR ''_'', CHR ''y'', CHR ''g''}"
    unfolding pattern_string_def using symbol_digit_ok [OF digit_lt] by auto
  have "(\<Sum>i<5. symbol_value (pattern_string p ! i) * 3 ^ i) = (\<Sum>i<5. digit p i * 3 ^ i)"
    by (rule sum.cong) (simp_all add: pattern_string_def symbol_value_digit [OF digit_lt])
  also have "\<dots> = p"
    using assms by (simp only: digits_mod) simp
  finally have "(\<Sum>i<length (pattern_string p). symbol_value (pattern_string p ! i) * 3 ^ i) = p"
    by (simp only: len)
  then show ?thesis
    using ok len unfolding ToPatternInt_def ToPatternInt_loop_eq by simp
qed

text \<open>
  Claim C8. \<open>ToPatternInt\<close> returns the sum of \<open>3^i\<close> times the value of the symbol at
  position \<open>i\<close> for a string of five symbols among \<open>_\<close>, \<open>y\<close>, \<open>g\<close>, and aborts on
  every other string; written out as such a string, a pattern of \<open>encode\<close> is read back
  as itself.
\<close>

theorem ToPatternInt_decode:
  "ToPatternInt pattern =
     (if length pattern = 5 \<and> (\<forall>ch \<in> set pattern. ch \<in> {CHR ''_'', CHR ''y'', CHR ''g''})
      then Some (\<Sum>i<5. symbol_value (pattern ! i) * 3 ^ i) else None)
   \<and> (valid_word answer \<longrightarrow>
        ToPatternInt (pattern_string (encode guess answer)) = Some (encode guess answer))"
proof -
  have "ToPatternInt pattern =
     (if length pattern = 5 \<and> (\<forall>ch \<in> set pattern. ch \<in> {CHR ''_'', CHR ''y'', CHR ''g''})
      then Some (\<Sum>i<5. symbol_value (pattern ! i) * 3 ^ i) else None)"
    unfolding ToPatternInt_def ToPatternInt_loop_eq by simp
  then show ?thesis
    by (simp add: ToPatternInt_pattern_string encode_less)
qed

lemma concat_ranges:
  assumes "\<And>t. t < n \<Longrightarrow> b t \<le> b (Suc t)"
  shows "concat (map (\<lambda>t. [b t..<b (Suc t)]) [0..<n]) = [b 0..<b n]"
  using assms
proof (induction n)
  case 0
  then show ?case by simp
next
  case (Suc n)
  have mono: "b 0 \<le> b n"
    using Suc.prems
  proof (induction n)
    case 0
    then show ?case by simp
  next
    case (Suc m)
    then have "b 0 \<le> b m" by simp
    moreover have "b m \<le> b (Suc m)" using Suc.prems by simp
    ultimately show ?case by simp
  qed
  have "b n \<le> b (Suc n)" using Suc.prems by simp
  then obtain k where k: "b (Suc n) = b n + k"
    using le_Suc_ex by blast
  have "[b 0..<b n] @ [b n..<b (Suc n)] = [b 0..<b (Suc n)]"
    unfolding k using mono by (rule upt_add_eq_append [symmetric])
  then show ?case
    using Suc by simp
qed

lemma thread_ranges_nth:
  "t < kNumThreads \<Longrightarrow>
     thread_ranges V ! t = (V * t div kNumThreads, V * (t + 1) div kNumThreads)"
  by (simp add: thread_ranges_def)

lemma range_size_upper: "(x + V) div 24 - x div 24 \<le> (V + 23) div (24::nat)"
proof -
  have "(x + V) div 24 = x div 24 + V div 24 + (x mod 24 + V mod 24) div 24"
    by (rule div_add1_eq)
  moreover have "(V + 23) div 24 = V div 24 + 23 div 24 + (V mod 24 + 23 mod 24) div 24"
    by (rule div_add1_eq)
  moreover have "(x mod 24 + V mod 24) div 24 \<le> (V mod 24 + 23 mod 24) div 24"
    by (rule div_le_mono) simp
  ultimately show ?thesis by simp
qed

lemma range_size_lower: "V div 24 \<le> (x + V) div 24 - x div (24::nat)"
proof -
  have "(x + V) div 24 = x div 24 + V div 24 + (x mod 24 + V mod 24) div 24"
    by (rule div_add1_eq)
  then show ?thesis by simp
qed

text \<open>
  Claim C6, as amended. The ranges handed to the workers are contiguous, in order, and
  together list \<open>[0, V)\<close> once; each holds between \<open>V div kNumThreads\<close> and
  \<open>ceil (V / kNumThreads)\<close> indices.
\<close>

theorem thread_ranges_partition:
  "length (thread_ranges V) = kNumThreads
   \<and> concat (map (\<lambda>(start, end). [start..<end]) (thread_ranges V)) = [0..<V]
   \<and> (\<forall>t<kNumThreads. fst (thread_ranges V ! t) \<le> snd (thread_ranges V ! t)
        \<and> V div kNumThreads \<le> snd (thread_ranges V ! t) - fst (thread_ranges V ! t)
        \<and> snd (thread_ranges V ! t) - fst (thread_ranges V ! t) \<le> (V + kNumThreads - 1) div kNumThreads)
   \<and> (\<forall>t. Suc t < kNumThreads \<longrightarrow> snd (thread_ranges V ! t) = fst (thread_ranges V ! Suc t))"
proof -
  have a: "length (thread_ranges V) = kNumThreads"
    by (simp add: thread_ranges_def)
  have "concat (map (\<lambda>(start, end). [start..<end]) (thread_ranges V))
      = concat (map (\<lambda>t. [V * t div kNumThreads..<V * Suc t div kNumThreads]) [0..<kNumThreads])"
    by (simp add: thread_ranges_def comp_def)
  also have "\<dots> = [V * 0 div kNumThreads..<V * kNumThreads div kNumThreads]"
    by (rule concat_ranges) (simp add: div_le_mono)
  also have "\<dots> = [0..<V]"
    by (simp add: kNumThreads_def)
  finally have b: "concat (map (\<lambda>(start, end). [start..<end]) (thread_ranges V)) = [0..<V]" .
  have c: "fst (thread_ranges V ! t) \<le> snd (thread_ranges V ! t)
        \<and> V div kNumThreads \<le> snd (thread_ranges V ! t) - fst (thread_ranges V ! t)
        \<and> snd (thread_ranges V ! t) - fst (thread_ranges V ! t) \<le> (V + kNumThreads - 1) div kNumThreads"
    if "t < kNumThreads" for t
    using that range_size_upper [of "V * t" V] range_size_lower [of V "V * t"]
    by (simp add: thread_ranges_nth div_le_mono) (simp add: kNumThreads_def add.commute)
  have d: "snd (thread_ranges V ! t) = fst (thread_ranges V ! Suc t)" if "Suc t < kNumThreads" for t
    using that by (simp add: thread_ranges_nth)
  show ?thesis
    using a b c d by (intro conjI allI impI) simp_all
qed

text \<open>
  Claim C6 as stated fails: with 25 words the first worker gets one index, not
  \<open>ceil (25 / 24) = 2\<close>, while the last worker gets two.
\<close>

theorem thread_ranges_ceil_counterexample:
  "thread_ranges 25 ! 0 = (0, 1) \<and> thread_ranges 25 ! 23 = (23, 25)
   \<and> (25 + kNumThreads - 1) div kNumThreads = 2"
  by (simp add: thread_ranges_def kNumThreads_def)

theorem ComputeWordPatternMatches_exact_witness:
  "valid_words [''abcde'', ''fghij''] \<and> (0::nat) < length [''abcde'', ''fghij''] \<and> (0::nat) < kNumPatterns
   \<and> (1::nat) < length [''abcde'', ''fghij'']
   \<and> (ComputeWordPatternMatches [''abcde'', ''fghij''] ! 0 ! 0 ! 1
        \<longleftrightarrow> encode ([''abcde'', ''fghij''] ! 0) ([''abcde'', ''fghij''] ! 1) = 0)
   \<and> ComputeWordPatternMatches [''abcde'', ''fghij''] ! 0
        ! encode ([''abcde'', ''fghij''] ! 0) ([''abcde'', ''fghij''] ! 1) ! 1"
proof -
  have v: "valid_words [''abcde'', ''fghij'']"
    by (simp add: valid_words_def valid_word_def)
  have k: "(0::nat) < kNumPatterns"
    by (simp add: kNumPatterns_def)
  show ?thesis
    using ComputeWordPatternMatches_exact [OF v _ k, of 0 1] v k by simp
qed

text \<open>
  Claim C2. When the guess repeats a letter that the answer holds exactly once, the computed
  pattern gives that letter at most one non-zero digit over the five positions. The digits
  are those of the two passes: 2 where the letters agree, 1 where they differ and the
  counter of the guessed letter is still positive when the second pass reaches the position.
\<close>

theorem encode_duplicate_letter_credit:
  assumes "valid_word guess" and "valid_word answer"
    and "2 \<le> count_list guess l" and "count_list answer l = 1"
  shows "credits guess (encode guess answer) l \<le> 1
    \<and> (\<forall>c<5. digit (encode guess answer) c =
          (if guess ! c = answer ! c then 2 else if present_at guess answer c then 1 else 0))"
proof -
  have "credits guess (encode guess answer) l \<le> count_list answer l"
    using assms(1,2) by (rule credits_le_count)
  moreover have "digit (encode guess answer) c =
      (if guess ! c = answer ! c then 2 else if present_at guess answer c then 1 else 0)"
    if "c < 5" for c
    using digit_encode [OF assms(2) that, of guess] by (simp add: feedback_def)
  ultimately show ?thesis
    using assms(4) by simp
qed

theorem encode_duplicate_letter_credit_witness:
  "valid_word ''aabbb'' \<and> valid_word ''xaxxx'' \<and> 2 \<le> count_list ''aabbb'' (CHR ''a'')
   \<and> count_list ''xaxxx'' (CHR ''a'') = 1
   \<and> credits ''aabbb'' (encode ''aabbb'' ''xaxxx'') (CHR ''a'') \<le> 1
   \<and> digit (encode ''aabbb'' ''xaxxx'') 0 = 0 \<and> digit (encode ''aabbb'' ''xaxxx'') 1 = 2"
proof -
  have h: "valid_word ''aabbb''" "valid_word ''xaxxx''" "2 \<le> count_list ''aabbb'' (CHR ''a'')"
    "count_list ''xaxxx'' (CHR ''a'') = 1"
    by (simp_all add: valid_word_def)
  have e: "encode ''aabbb'' ''xaxxx'' = 6"
    by code_simp
  from encode_duplicate_letter_credit [OF h] h show ?thesis
    by (simp add: e digit_def)
qed

theorem ToPatternInt_decode_witness:
  "ToPatternInt ''__g_g'' = Some 180 \<and> ToPatternInt ''__g_x'' = None \<and> ToPatternInt ''gg'' = None
   \<and> valid_word ''abide''
   \<and> ToPatternInt (pattern_string (encode ''speed'' ''abide'')) = Some (encode ''speed'' ''abide'')"
proof -
  have v: "valid_word ''abide''"
    by (simp add: valid_word_def)
  have s: "(\<Sum>i<5. symbol_value (''__g_g'' ! i) * 3 ^ i) = 180"
    by (simp add: symbol_value_def lessThan_nat_numeral lessThan_Suc)
  show ?thesis
    using ToPatternInt_decode [of "''__g_g''" "''abide''" "''speed''"]
      ToPatternInt_decode [of "''__g_x''" "''abide''" "''speed''"]
      ToPatternInt_decode [of "''gg''" "''abide''" "''speed''"] v s
    by simp
qed

theorem thread_ranges_partition_witness:
  "length (thread_ranges 25) = kNumThreads
   \<and> concat (map (\<lambda>(start, end). [start..<end]) (thread_ranges 25)) = [0..<25]
   \<and> (3::nat) < kNumThreads \<and> thread_ranges 25 ! 3 = (3, 4)
   \<and> 25 div kNumThreads \<le> snd (thread_ranges 25 ! 3) - fst (thread_ranges 25 ! 3)
   \<and> snd (thread_ranges 25 ! 3) - fst (thread_ranges 25 ! 3) \<le> (25 + kNumThreads - 1) div kNumThreads
   \<and> snd (thread_ranges 25 ! 3) = fst (thread_ranges 25 ! Suc 3)"
proof -
  have k: "(3::nat) < kNumThreads" "Suc 3 < kNumThreads"
    by (simp_all add: kNumThreads_def)
  have r: "thread_ranges 25 ! 3 = (3, 4)"
    using k by (simp add: thread_ranges_nth) (simp add: kNumThreads_def)
  have p3: "25 div kNumThreads \<le> snd (thread_ranges 25 ! 3) - fst (thread_ranges 25 ! 3)
      \<and> snd (thread_ranges 25 ! 3) - fst (thread_ranges 25 ! 3) \<le> (25 + kNumThreads - 1) div kNumThreads"
    using thread_ranges_partition [of 25] k(1) by blast
  have p4: "snd (thread_ranges 25 ! 3) = fst (thread_ranges 25 ! Suc 3)"
    using thread_ranges_partition [of 25] k(2) by blast
  have p1: "length (thread_ranges 25) = kNumThreads
      \<and> concat (map (\<lambda>(start, end). [start..<end]) (thread_ranges 25)) = [0..<25]"
    using thread_ranges_partition [of 25] by blast
  show ?thesis
    using p1 p3 p4 k(1) r by (intro conjI) (simp_all only: simp_thms)
qed

section \<open>Trimming and the loops that fill the buffers\<close>

lemma fold_count_match: "fold count_match pattern n = n + length (filter (\<lambda>b. b) pattern)"
  by (induction pattern arbitrary: n) simp_all

lemma num_matches_pos: "0 < fold count_match pattern 0 \<longleftrightarrow> nonempty_pattern pattern"
proof -
  have "(\<exists>b\<in>set pattern. b) \<longleftrightarrow> (\<exists>w<length pattern. pattern ! w)"
  proof
    assume "\<exists>b\<in>set pattern. b"
    then have "True \<in> set pattern" by auto
    then obtain i where "i < length pattern" "pattern ! i = True"
      unfolding in_set_conv_nth by blast
    then show "\<exists>w<length pattern. pattern ! w" by auto
  next
    assume "\<exists>w<length pattern. pattern ! w"
    then obtain w where "w < length pattern" "pattern ! w" by blast
    then show "\<exists>b\<in>set pattern. b" using nth_mem by blast
  qed
  then have "filter (\<lambda>b. b) pattern \<noteq> [] \<longleftrightarrow> (\<exists>w<length pattern. pattern ! w)"
    by (simp add: filter_empty_conv)
  then show ?thesis
    by (simp add: fold_count_match nonempty_pattern_def)
qed

lemma fold_keep_pattern: "fold keep_pattern row acc = acc @ filter nonempty_pattern row"
  by (induction row arbitrary: acc) (simp_all add: num_matches_pos)

lemma TrimWordPatternMatches_nth:
  "g < length t \<Longrightarrow> TrimWordPatternMatches t ! g = filter nonempty_pattern (t ! g)"
  by (simp add: TrimWordPatternMatches_def fold_keep_pattern)

lemma length_TrimWordPatternMatches: "length (TrimWordPatternMatches t) = length t"
  by (simp add: TrimWordPatternMatches_def)

lemma Recurse_partition_fold:
  assumes "1 \<le> ng" and "ng < length awl" and "n \<le> length (awl ! (ng - 1))"
    and "n \<le> length (awl ! ng)"
  shows "fold (Recurse_partition ng pattern) [0..<n] (awl, 0) =
           (awl[ng := subset_of pattern (take n (awl ! (ng - 1)))
                        @ drop (length (subset_of pattern (take n (awl ! (ng - 1))))) (awl ! ng)],
            length (subset_of pattern (take n (awl ! (ng - 1)))))"
  using assms(3,4)
proof (induction n)
  case 0
  then show ?case by (simp add: subset_of_def)
next
  case (Suc n)
  define sub where "sub = subset_of pattern (take n (awl ! (ng - 1)))"
  define word where "word = awl ! (ng - 1) ! n"
  have IH: "fold (Recurse_partition ng pattern) [0..<n] (awl, 0) =
      (awl[ng := sub @ drop (length sub) (awl ! ng)], length sub)"
    using Suc by (simp add: sub_def)
  have neq: "ng - 1 \<noteq> ng" using assms(1) by simp
  have rd: "awl[ng := sub @ drop (length sub) (awl ! ng)] ! (ng - 1) ! n = word"
    using neq by (simp add: word_def)
  have tk: "take (Suc n) (awl ! (ng - 1)) = take n (awl ! (ng - 1)) @ [word]"
    using Suc.prems by (simp add: take_Suc_conv_app_nth word_def)
  have len: "length sub \<le> n"
    unfolding sub_def subset_of_def
    by (rule order_trans [OF length_filter_le]) simp
  then have lt: "length sub < length (awl ! ng)"
    using Suc.prems by simp
  define sub2 where "sub2 = subset_of pattern (take (Suc n) (awl ! (ng - 1)))"
  have sub': "sub2 = (if pattern ! word then sub @ [word] else sub)"
    unfolding sub2_def tk subset_of_def sub_def by simp
  have dr: "drop (length sub) (awl ! ng) = awl ! ng ! length sub # drop (Suc (length sub)) (awl ! ng)"
    using lt by (simp add: Cons_nth_drop_Suc)
  have upd: "(sub @ drop (length sub) (awl ! ng))[length sub := word]
      = (sub @ [word]) @ drop (Suc (length sub)) (awl ! ng)"
    by (subst dr) (simp add: list_update_append)
  have "fold (Recurse_partition ng pattern) [0..<Suc n] (awl, 0)
      = Recurse_partition ng pattern n (awl[ng := sub @ drop (length sub) (awl ! ng)], length sub)"
    by (simp add: IH del: Recurse_partition.simps)
  also have "\<dots> = (if pattern ! word
         then (awl[ng := (sub @ [word]) @ drop (Suc (length sub)) (awl ! ng)], Suc (length sub))
         else (awl[ng := sub @ drop (length sub) (awl ! ng)], length sub))"
    using assms(2) upd by (simp add: rd Let_def del: append_assoc One_nat_def)
  also have "\<dots> = (awl[ng := sub2 @ drop (length sub2) (awl ! ng)], length sub2)"
    by (simp add: sub')
  finally show ?case
    unfolding sub2_def .
qed

lemma Thread_partition_fold:
  assumes "0 < length awl" and "n \<le> length (awl ! 0)"
  shows "fold (Thread_partition pattern) [0..<n] (awl, 0) =
           (awl[0 := subset_of pattern [0..<n] @ drop (length (subset_of pattern [0..<n])) (awl ! 0)],
            length (subset_of pattern [0..<n]))"
  using assms(2)
proof (induction n)
  case 0
  then show ?case by (simp add: subset_of_def)
next
  case (Suc n)
  define sub where "sub = subset_of pattern [0..<n]"
  have IH: "fold (Thread_partition pattern) [0..<n] (awl, 0) =
      (awl[0 := sub @ drop (length sub) (awl ! 0)], length sub)"
    using Suc by (simp add: sub_def)
  have len: "length sub \<le> n"
    unfolding sub_def subset_of_def
    by (rule order_trans [OF length_filter_le]) simp
  then have lt: "length sub < length (awl ! 0)"
    using Suc.prems by simp
  define sub2 where "sub2 = subset_of pattern [0..<Suc n]"
  have sub': "sub2 = (if pattern ! n then sub @ [n] else sub)"
    by (simp add: sub2_def subset_of_def sub_def)
  have dr: "drop (length sub) (awl ! 0) = awl ! 0 ! length sub # drop (Suc (length sub)) (awl ! 0)"
    using lt by (simp add: Cons_nth_drop_Suc)
  have upd: "(sub @ drop (length sub) (awl ! 0))[length sub := n]
      = (sub @ [n]) @ drop (Suc (length sub)) (awl ! 0)"
    by (subst dr) (simp add: list_update_append)
  have "fold (Thread_partition pattern) [0..<Suc n] (awl, 0)
      = Thread_partition pattern n (awl[0 := sub @ drop (length sub) (awl ! 0)], length sub)"
    by (simp add: IH del: Thread_partition.simps)
  also have "\<dots> = (if pattern ! n
         then (awl[0 := (sub @ [n]) @ drop (Suc (length sub)) (awl ! 0)], Suc (length sub))
         else (awl[0 := sub @ drop (length sub) (awl ! 0)], length sub))"
    using assms(1) upd by (simp del: append_assoc)
  also have "\<dots> = (awl[0 := sub2 @ drop (length sub2) (awl ! 0)], length sub2)"
    by (simp add: sub')
  finally show ?case
    unfolding sub2_def .
qed

text \<open>
  Claim C3. Called with as many guesses committed as the budget allows, \<open>Recurse\<close> returns
  \<open>std::nullopt\<close> whatever the size of the working set, a single word included; with
  guesses left and one word in the working set it returns exactly 1. In both cases the
  scratch buffers are untouched.
\<close>

theorem Recurse_terminal:
  "Recurse ops max_num_guesses max_num_guesses all_words_left num_words_left word_pattern_matches
     = Some (None, all_words_left)
   \<and> (num_guesses \<noteq> max_num_guesses \<longrightarrow>
        Recurse ops num_guesses max_num_guesses all_words_left 1 word_pattern_matches
          = Some (Some (to_float ops 1), all_words_left))"
proof (intro conjI impI)
  show "Recurse ops max_num_guesses max_num_guesses all_words_left num_words_left word_pattern_matches
     = Some (None, all_words_left)"
    by (subst Recurse.simps) simp
next
  assume "num_guesses \<noteq> max_num_guesses"
  then show "Recurse ops num_guesses max_num_guesses all_words_left 1 word_pattern_matches
          = Some (Some (to_float ops 1), all_words_left)"
    by (subst Recurse.simps) simp
qed

lemma feedback_self: "feedback g g c = 2"
  by (simp add: feedback_def)

lemma encode_self: "valid_word g \<Longrightarrow> encode g g = 242"
  by (simp add: encode_feedback feedback_self lessThan_nat_numeral lessThan_Suc)

lemma digit_242: "c < 5 \<Longrightarrow> digit 242 c = 2"
proof -
  assume "c < 5"
  then consider "c = 0" | "c = 1" | "c = 2" | "c = 3" | "c = 4" by linarith
  then show ?thesis by cases (simp_all add: digit_def)
qed

lemma encode_all_exact:
  assumes "valid_word g" and "valid_word a" and "encode g a = 242"
  shows "g = a"
proof (rule nth_equalityI)
  show "length g = length a"
    using assms by (simp add: valid_word_def)
next
  fix c
  assume "c < length g"
  then have c: "c < 5" using assms(1) by (simp add: valid_word_def)
  have "feedback g a c = 2"
    using digit_encode [OF assms(2) c, of g] digit_242 [OF c] assms(3) by simp
  then show "g ! c = a ! c"
    by (simp add: feedback_def split: if_splits)
qed

lemma ComputeWordPatternMatches_shape:
  assumes "valid_words words" and "g < length words"
  shows "length (ComputeWordPatternMatches words ! g) = kNumPatterns"
    and "p < kNumPatterns \<Longrightarrow> length (ComputeWordPatternMatches words ! g ! p) = length words"
  using table_upto_ComputeWordPatternMatches [OF assms(1)] assms(2)
  unfolding table_upto_def by simp_all

lemma trimmed_pattern:
  assumes v: "valid_words words" and g: "g < length words"
    and p: "pattern \<in> set (TrimWordPatternMatches (ComputeWordPatternMatches words) ! g)"
  shows "\<exists>p<kNumPatterns. pattern = ComputeWordPatternMatches words ! g ! p"
    and "length pattern = length words"
    and "\<exists>w<length words. pattern ! w"
proof -
  let ?t = "ComputeWordPatternMatches words"
  have len: "length ?t = length words"
    using table_upto_ComputeWordPatternMatches [OF v] by (simp add: table_upto_def)
  have "pattern \<in> set (filter nonempty_pattern (?t ! g))"
    using p g len by (simp add: TrimWordPatternMatches_nth)
  then have ne: "nonempty_pattern pattern" and mem: "pattern \<in> set (?t ! g)"
    by simp_all
  from mem obtain p where "p < length (?t ! g)" and "?t ! g ! p = pattern"
    unfolding in_set_conv_nth by blast
  then have pk: "p < kNumPatterns" and eq: "pattern = ?t ! g ! p"
    using ComputeWordPatternMatches_shape(1) [OF v g] by simp_all
  show "\<exists>p<kNumPatterns. pattern = ?t ! g ! p"
    using pk eq by blast
  show l: "length pattern = length words"
    using ComputeWordPatternMatches_shape(2) [OF v g pk] eq by simp
  show "\<exists>w<length words. pattern ! w"
    using ne l by (simp add: nonempty_pattern_def)
qed

lemma exact_row:
  assumes v: "valid_words words" and d: "distinct words" and g: "g < length words"
    and a: "a < length words"
  shows "ComputeWordPatternMatches words ! g ! 242 ! a \<longleftrightarrow> a = g"
proof -
  have k: "(242::nat) < kNumPatterns" by (simp add: kNumPatterns_def)
  have "ComputeWordPatternMatches words ! g ! 242 ! a \<longleftrightarrow> encode (words ! g) (words ! a) = 242"
    using table_upto_ComputeWordPatternMatches [OF v] g a k unfolding table_upto_def by simp
  also have "\<dots> \<longleftrightarrow> words ! g = words ! a"
    using encode_all_exact [of "words ! g" "words ! a"] encode_self [of "words ! g"]
      valid_words_nth [OF v g] valid_words_nth [OF v a] by auto
  also have "\<dots> \<longleftrightarrow> a = g"
    using d g a by (auto simp: nth_eq_iff_index_eq)
  finally show ?thesis .
qed

lemma pattern_with_guess:
  assumes v: "valid_words words" and d: "distinct words" and g: "g < length words"
    and p: "pattern \<in> set (TrimWordPatternMatches (ComputeWordPatternMatches words) ! g)"
    and pg: "pattern ! g"
  shows "pattern = ComputeWordPatternMatches words ! g ! 242"
    and "\<forall>a<length words. pattern ! a \<longleftrightarrow> a = g"
proof -
  from trimmed_pattern(1) [OF v g p] obtain q where q: "q < kNumPatterns"
    and eq: "pattern = ComputeWordPatternMatches words ! g ! q" by blast
  have "ComputeWordPatternMatches words ! g ! q ! g \<longleftrightarrow> encode (words ! g) (words ! g) = q"
    using table_upto_ComputeWordPatternMatches [OF v] g q unfolding table_upto_def by simp
  then have "q = 242"
    using pg eq encode_self [OF valid_words_nth [OF v g]] by simp
  then show "pattern = ComputeWordPatternMatches words ! g ! 242"
    using eq by simp
  then show "\<forall>a<length words. pattern ! a \<longleftrightarrow> a = g"
    using exact_row [OF v d g] by simp
qed

lemma distinct_all_same:
  assumes "distinct xs" and "xs \<noteq> []" and "\<forall>x\<in>set xs. x = g"
  shows "xs = [g]"
proof (cases xs)
  case Nil
  then show ?thesis using assms(2) by simp
next
  case (Cons y ys)
  have "ys = []"
  proof (cases ys)
    case Nil
    then show ?thesis .
  next
    case (Cons z zs)
    then show ?thesis using assms(1,3) \<open>xs = y # ys\<close> by auto
  qed
  then show ?thesis using assms(3) Cons by simp
qed

lemma subset_with_guess:
  assumes v: "valid_words words" and d: "distinct words" and g: "g < length words"
    and p: "pattern \<in> set (TrimWordPatternMatches (ComputeWordPatternMatches words) ! g)"
    and ws: "distinct ws" "set ws \<subseteq> {..<length words}"
    and mem: "g \<in> set (subset_of pattern ws)"
  shows "subset_of pattern ws = [g]"
proof (rule distinct_all_same)
  show "distinct (subset_of pattern ws)"
    using ws(1) by (simp add: subset_of_def)
  show "subset_of pattern ws \<noteq> []"
    using mem by auto
  have pg: "pattern ! g"
    using mem by (simp add: subset_of_def)
  show "\<forall>x\<in>set (subset_of pattern ws). x = g"
    using pattern_with_guess(2) [OF v d g p pg] ws(2) by (auto simp: subset_of_def)
qed

lemma first_of_upt_filter:
  assumes "filter P [0..<n] \<noteq> []"
  shows "hd (filter P [0..<n]) < n \<and> P (hd (filter P [0..<n]))
     \<and> (\<forall>w'<hd (filter P [0..<n]). \<not> P w')"
proof -
  obtain y ys where f: "filter P [0..<n] = y # ys"
    using assms by (cases "filter P [0..<n]") auto
  then obtain us vs where split: "[0..<n] = us @ y # vs" and no: "\<forall>u\<in>set us. \<not> P u" and y: "P y"
    unfolding filter_eq_Cons_iff by blast
  have len: "length us < n"
    using arg_cong [OF split, of length] by simp
  have "y = [0..<n] ! length us"
    by (simp add: split)
  then have yl: "y = length us"
    using len by simp
  have t1: "take (length us) [0..<n] = us"
    by (simp add: split)
  have t2: "take (length us) [0..<n] = [0..<length us]"
    using len by (simp add: take_upt)
  from t1 [symmetric] t2 have "us = [0..<length us]"
    by (rule trans)
  then have us: "us = [0..<y]"
    unfolding yl .
  have yn: "y < n"
    using len unfolding yl .
  have "\<not> P w'" if "w' < y" for w'
  proof -
    have "w' \<in> set [0..<y]" using that by simp
    then have "w' \<in> set us" by (simp only: us [symmetric])
    then show ?thesis using no by blast
  qed
  then show ?thesis
    using y yn by (simp add: f)
qed

lemma in_set_nonempty: "x \<in> set xs \<Longrightarrow> xs \<noteq> []"
  by (cases xs) simp_all

text \<open>
  Claim C10. In \<open>Thread\<close>, for a pattern kept in the trimmed row of the first guess, the
  loop over the full vocabulary writes at least one word, and element 0 of buffer 0 then
  holds the first word that matches the pattern: the value read by the test is the one
  written in this iteration, whatever the buffers held before.
\<close>

theorem Thread_partition_nonempty:
  assumes "valid_words words" and "first_word < length words"
    and "pattern \<in> set (TrimWordPatternMatches (ComputeWordPatternMatches words) ! first_word)"
    and "0 < length all_words_left" and "length words \<le> length (all_words_left ! 0)"
  shows "\<exists>all_words_left1 new_num_words_left w.
      fold (Thread_partition pattern) [0..<length words] (all_words_left, 0)
        = (all_words_left1, new_num_words_left)
      \<and> 1 \<le> new_num_words_left
      \<and> w < length words \<and> pattern ! w \<and> (\<forall>w'<w. \<not> pattern ! w')
      \<and> all_words_left1 ! 0 ! 0 = w"
proof -
  define sub where "sub = subset_of pattern [0..<length words]"
  have fold: "fold (Thread_partition pattern) [0..<length words] (all_words_left, 0)
      = (all_words_left[0 := sub @ drop (length sub) (all_words_left ! 0)], length sub)"
    unfolding sub_def using assms(4,5) by (rule Thread_partition_fold)
  obtain w where "w < length words" "pattern ! w"
    using trimmed_pattern(3) [OF assms(1-3)] by blast
  then have "w \<in> set (filter (\<lambda>w. pattern ! w) [0..<length words])"
    by simp
  then have ne: "filter (\<lambda>w. pattern ! w) [0..<length words] \<noteq> []"
    by (rule in_set_nonempty)
  then have sub_ne: "sub \<noteq> []"
    by (simp add: sub_def subset_of_def)
  have hd: "hd sub < length words \<and> pattern ! hd sub \<and> (\<forall>w'<hd sub. \<not> pattern ! w')"
    unfolding sub_def subset_of_def by (rule first_of_upt_filter [OF ne])
  have rd: "all_words_left[0 := sub @ drop (length sub) (all_words_left ! 0)] ! 0 ! 0 = hd sub"
    using assms(4) sub_ne by (simp add: nth_append hd_conv_nth)
  have l1: "1 \<le> length sub"
    using sub_ne by (cases sub) simp_all
  show ?thesis
  proof (intro exI conjI)
    show "fold (Thread_partition pattern) [0..<length words] (all_words_left, 0)
      = (all_words_left[0 := sub @ drop (length sub) (all_words_left ! 0)], length sub)"
      by (rule fold)
    show "1 \<le> length sub" by (rule l1)
    show "hd sub < length words" using hd by (rule conjunct1)
    show "pattern ! hd sub" using hd by blast
    show "\<forall>w'<hd sub. \<not> pattern ! w'" using hd by blast
    show "all_words_left[0 := sub @ drop (length sub) (all_words_left ! 0)] ! 0 ! 0 = hd sub"
      by (rule rd)
  qed
qed

lemma shortcut_Recurse:
  assumes v: "valid_words words" and d: "distinct words" and g: "g < length words"
    and p: "pattern \<in> set (TrimWordPatternMatches (ComputeWordPatternMatches words) ! g)"
    and ng: "1 \<le> num_guesses" "num_guesses < length all_words_left"
    and nwl: "num_words_left \<le> length (all_words_left ! (num_guesses - 1))"
      "num_words_left \<le> length (all_words_left ! num_guesses)"
    and ws: "distinct (take num_words_left (all_words_left ! (num_guesses - 1)))"
      "set (take num_words_left (all_words_left ! (num_guesses - 1))) \<subseteq> {..<length words}"
  shows "case fold (Recurse_partition num_guesses pattern) [0..<num_words_left] (all_words_left, 0) of
           (all_words_left1, new_num_words_left) \<Rightarrow>
             ((0 < new_num_words_left \<and> all_words_left1 ! num_guesses ! 0 = g)
                \<longleftrightarrow> g \<in> set (take new_num_words_left (all_words_left1 ! num_guesses)))
             \<and> (g \<in> set (take new_num_words_left (all_words_left1 ! num_guesses))
                \<longrightarrow> new_num_words_left = 1
                    \<and> pattern = ComputeWordPatternMatches words ! g ! 242)"
proof -
  define ws where "ws = take num_words_left (all_words_left ! (num_guesses - 1))"
  define sub where "sub = subset_of pattern ws"
  define awl1 where
    "awl1 = all_words_left[num_guesses := sub @ drop (length sub) (all_words_left ! num_guesses)]"
  have fold: "fold (Recurse_partition num_guesses pattern) [0..<num_words_left] (all_words_left, 0)
      = (awl1, length sub)"
    unfolding sub_def ws_def awl1_def using ng nwl by (rule Recurse_partition_fold)
  have buf: "take (length sub) (awl1 ! num_guesses) = sub"
    using ng(2) by (simp add: awl1_def)
  have first: "awl1 ! num_guesses ! 0 = hd sub" if "sub \<noteq> []"
    using ng(2) that by (simp add: awl1_def nth_append hd_conv_nth)
  have single: "sub = [g]" if "g \<in> set sub"
    using subset_with_guess [OF v d g p] ws that unfolding sub_def ws_def by blast
  have one: "length sub = 1" if "g \<in> set sub"
    using single [OF that] by simp
  have exact: "pattern = ComputeWordPatternMatches words ! g ! 242" if "g \<in> set sub"
    using pattern_with_guess(1) [OF v d g p] that by (simp add: sub_def subset_of_def)
  have A: "(0 < length sub \<and> awl1 ! num_guesses ! 0 = g) \<longleftrightarrow> g \<in> set sub"
  proof (cases "sub = []")
    case True
    then show ?thesis by simp
  next
    case False
    have "hd sub = g \<longleftrightarrow> g \<in> set sub"
    proof
      assume "hd sub = g"
      then show "g \<in> set sub" using False by (cases sub) auto
    next
      assume "g \<in> set sub"
      from single [OF this] show "hd sub = g" by simp
    qed
    then show ?thesis
      using False by (simp add: first [OF False])
  qed
  have B: "g \<in> set sub \<longrightarrow> length sub = 1 \<and> pattern = ComputeWordPatternMatches words ! g ! 242"
    using one exact by blast
  show ?thesis
    unfolding fold prod.case buf using A B by (rule conjI)
qed

lemma shortcut_Thread:
  assumes v: "valid_words words" and d: "distinct words" and g: "g < length words"
    and p: "pattern \<in> set (TrimWordPatternMatches (ComputeWordPatternMatches words) ! g)"
    and pos: "0 < length all_words_left"
    and top: "length words \<le> length (all_words_left ! 0)"
  shows "case fold (Thread_partition pattern) [0..<length words] (all_words_left, 0) of
           (all_words_left1, new_num_words_left) \<Rightarrow>
             (all_words_left1 ! 0 ! 0 = g
                \<longleftrightarrow> g \<in> set (take new_num_words_left (all_words_left1 ! 0)))
             \<and> (g \<in> set (take new_num_words_left (all_words_left1 ! 0))
                \<longrightarrow> new_num_words_left = 1
                    \<and> pattern = ComputeWordPatternMatches words ! g ! 242)"
proof -
  define sub where "sub = subset_of pattern [0..<length words]"
  define awl1 where "awl1 = all_words_left[0 := sub @ drop (length sub) (all_words_left ! 0)]"
  have fold: "fold (Thread_partition pattern) [0..<length words] (all_words_left, 0)
      = (awl1, length sub)"
    unfolding sub_def awl1_def using pos top by (rule Thread_partition_fold)
  have buf: "take (length sub) (awl1 ! 0) = sub"
    using pos by (simp add: awl1_def)
  obtain w where "w < length words" "pattern ! w"
    using trimmed_pattern(3) [OF v g p] by blast
  then have "w \<in> set sub"
    by (simp add: sub_def subset_of_def)
  then have sub_ne: "sub \<noteq> []"
    by (rule in_set_nonempty)
  have first: "awl1 ! 0 ! 0 = hd sub"
    using pos sub_ne by (simp add: awl1_def nth_append hd_conv_nth)
  have single: "sub = [g]" if "g \<in> set sub"
  proof (rule subset_with_guess [OF v d g p, of "[0..<length words]", folded sub_def])
    show "distinct [0..<length words]" by simp
    show "set [0..<length words] \<subseteq> {..<length words}" by auto
    show "g \<in> set sub" by (rule that)
  qed
  have one: "length sub = 1" if "g \<in> set sub"
    using single [OF that] by simp
  have exact: "pattern = ComputeWordPatternMatches words ! g ! 242" if "g \<in> set sub"
    using pattern_with_guess(1) [OF v d g p] that by (simp add: sub_def subset_of_def)
  have "hd sub = g \<longleftrightarrow> g \<in> set sub"
  proof
    assume "hd sub = g"
    then show "g \<in> set sub" using sub_ne by (cases sub) auto
  next
    assume "g \<in> set sub"
    from single [OF this] show "hd sub = g" by simp
  qed
  then have A: "awl1 ! 0 ! 0 = g \<longleftrightarrow> g \<in> set sub"
    by (simp add: first)
  have B: "g \<in> set sub \<longrightarrow> length sub = 1 \<and> pattern = ComputeWordPatternMatches words ! g ! 242"
    using one exact by blast
  show ?thesis
    unfolding fold prod.case buf using A B by (rule conjI)
qed

text \<open>
  Claim C9. For a vocabulary without repetitions, a guess \<open>g\<close> is compatible with itself
  under the all-exact pattern 242 only, and the members of that pattern for \<open>g\<close> are \<open>g\<close>
  alone. Hence in \<open>Recurse\<close> (on a working set without repetitions) and in \<open>Thread\<close> the
  test of the first written element against the guess succeeds exactly when the guess is
  among the words written, and then it is the only word written and the pattern is the
  all-exact one.
\<close>

theorem exact_match_shortcut:
  assumes "valid_words words" and "distinct words" and "g < length words"
    and "pattern \<in> set (TrimWordPatternMatches (ComputeWordPatternMatches words) ! g)"
    and "1 \<le> num_guesses" and "num_guesses < length all_words_left"
    and "num_words_left \<le> length (all_words_left ! (num_guesses - 1))"
    and "num_words_left \<le> length (all_words_left ! num_guesses)"
    and "distinct (take num_words_left (all_words_left ! (num_guesses - 1)))"
    and "set (take num_words_left (all_words_left ! (num_guesses - 1))) \<subseteq> {..<length words}"
    and "length words \<le> length (all_words_left ! 0)"
  shows "encode (words ! g) (words ! g) = 242
    \<and> (\<forall>a<length words. ComputeWordPatternMatches words ! g ! 242 ! a \<longleftrightarrow> a = g)
    \<and> (case fold (Recurse_partition num_guesses pattern) [0..<num_words_left] (all_words_left, 0) of
           (all_words_left1, new_num_words_left) \<Rightarrow>
             ((0 < new_num_words_left \<and> all_words_left1 ! num_guesses ! 0 = g)
                \<longleftrightarrow> g \<in> set (take new_num_words_left (all_words_left1 ! num_guesses)))
             \<and> (g \<in> set (take new_num_words_left (all_words_left1 ! num_guesses))
                \<longrightarrow> new_num_words_left = 1
                    \<and> pattern = ComputeWordPatternMatches words ! g ! 242))
    \<and> (case fold (Thread_partition pattern) [0..<length words] (all_words_left, 0) of
           (all_words_left1, new_num_words_left) \<Rightarrow>
             (all_words_left1 ! 0 ! 0 = g
                \<longleftrightarrow> g \<in> set (take new_num_words_left (all_words_left1 ! 0)))
             \<and> (g \<in> set (take new_num_words_left (all_words_left1 ! 0))
                \<longrightarrow> new_num_words_left = 1
                    \<and> pattern = ComputeWordPatternMatches words ! g ! 242))"
proof (intro conjI)
  show "encode (words ! g) (words ! g) = 242"
    using assms(1,3) by (simp add: encode_self valid_words_nth)
  show "\<forall>a<length words. ComputeWordPatternMatches words ! g ! 242 ! a \<longleftrightarrow> a = g"
    using exact_row [OF assms(1-3)] by simp
  show "case fold (Recurse_partition num_guesses pattern) [0..<num_words_left] (all_words_left, 0) of
           (all_words_left1, new_num_words_left) \<Rightarrow>
             ((0 < new_num_words_left \<and> all_words_left1 ! num_guesses ! 0 = g)
                \<longleftrightarrow> g \<in> set (take new_num_words_left (all_words_left1 ! num_guesses)))
             \<and> (g \<in> set (take new_num_words_left (all_words_left1 ! num_guesses))
                \<longrightarrow> new_num_words_left = 1
                    \<and> pattern = ComputeWordPatternMatches words ! g ! 242)"
    using assms(1-10) by (rule shortcut_Recurse)
  show "case fold (Thread_partition pattern) [0..<length words] (all_words_left, 0) of
           (all_words_left1, new_num_words_left) \<Rightarrow>
             (all_words_left1 ! 0 ! 0 = g
                \<longleftrightarrow> g \<in> set (take new_num_words_left (all_words_left1 ! 0)))
             \<and> (g \<in> set (take new_num_words_left (all_words_left1 ! 0))
                \<longrightarrow> new_num_words_left = 1
                    \<and> pattern = ComputeWordPatternMatches words ! g ! 242)"
  proof (rule shortcut_Thread [OF assms(1-4) _ assms(11)])
    show "0 < length all_words_left" using assms(6) by (cases all_words_left) simp_all
  qed
qed

lemma two_words_valid: "valid_words two_words" "distinct two_words" "length two_words = 2"
  by (simp_all add: two_words_def valid_words_def valid_word_def)

lemma two_words_table:
  "TrimWordPatternMatches (ComputeWordPatternMatches two_words)
     = [[[False, True], [True, False]], [[True, False], [False, True]]]"
  unfolding two_words_def by code_simp

theorem Recurse_terminal_witness:
  "Recurse rat_ops 6 6 [[0, 1], [0, 0]] 2 [] = Some (None, [[0, 1], [0, 0]])
   \<and> (5::nat) \<noteq> 6
   \<and> Recurse rat_ops 5 6 [[0, 1], [0, 0]] 1 [] = Some (Some (to_float rat_ops 1), [[0, 1], [0, 0]])"
  using Recurse_terminal [of rat_ops 6 "[[0, 1], [0, 0]]" 2 "[]" 5] by simp

theorem Thread_partition_nonempty_witness:
  "valid_words two_words \<and> (0::nat) < length two_words
   \<and> [False, True] \<in> set (TrimWordPatternMatches (ComputeWordPatternMatches two_words) ! 0)
   \<and> 0 < length [[7, 7::nat]] \<and> length two_words \<le> length ([[7, 7::nat]] ! 0)
   \<and> (\<exists>all_words_left1 new_num_words_left w.
      fold (Thread_partition [False, True]) [0..<length two_words] ([[7, 7]], 0)
        = (all_words_left1, new_num_words_left)
      \<and> 1 \<le> new_num_words_left
      \<and> w < length two_words \<and> [False, True] ! w \<and> (\<forall>w'<w. \<not> [False, True] ! w')
      \<and> all_words_left1 ! 0 ! 0 = w)"
proof -
  have h: "valid_words two_words" "(0::nat) < length two_words"
    "[False, True] \<in> set (TrimWordPatternMatches (ComputeWordPatternMatches two_words) ! 0)"
    "0 < length [[7, 7::nat]]" "length two_words \<le> length ([[7, 7::nat]] ! 0)"
    by (simp_all add: two_words_valid two_words_table)
  from Thread_partition_nonempty [OF h] h show ?thesis
    by (intro conjI)
qed

theorem exact_match_shortcut_witness:
  "valid_words two_words \<and> distinct two_words \<and> (0::nat) < length two_words
   \<and> [True, False] \<in> set (TrimWordPatternMatches (ComputeWordPatternMatches two_words) ! 0)
   \<and> (1::nat) \<le> 1 \<and> 1 < length [[0, 1], [7, 7::nat]]
   \<and> 2 \<le> length ([[0, 1], [7, 7::nat]] ! (1 - 1)) \<and> 2 \<le> length ([[0, 1], [7, 7::nat]] ! 1)
   \<and> distinct (take 2 ([[0, 1], [7, 7::nat]] ! (1 - 1)))
   \<and> set (take 2 ([[0, 1], [7, 7::nat]] ! (1 - 1))) \<subseteq> {..<length two_words}
   \<and> length two_words \<le> length ([[0, 1], [7, 7::nat]] ! 0)
   \<and> encode (two_words ! 0) (two_words ! 0) = 242
   \<and> fold (Recurse_partition 1 [True, False]) [0..<2] ([[0, 1], [7, 7]], 0) = ([[0, 1], [0, 7]], 1)
   \<and> [True, False] = ComputeWordPatternMatches two_words ! 0 ! 242"
proof -
  have h: "valid_words two_words" "distinct two_words" "(0::nat) < length two_words"
    "[True, False] \<in> set (TrimWordPatternMatches (ComputeWordPatternMatches two_words) ! 0)"
    "(1::nat) \<le> 1" "1 < length [[0, 1], [7, 7::nat]]"
    "2 \<le> length ([[0, 1], [7, 7::nat]] ! (1 - 1))" "2 \<le> length ([[0, 1], [7, 7::nat]] ! 1)"
    "distinct (take 2 ([[0, 1], [7, 7::nat]] ! (1 - 1)))"
    "set (take 2 ([[0, 1], [7, 7::nat]] ! (1 - 1))) \<subseteq> {..<length two_words}"
    "length two_words \<le> length ([[0, 1], [7, 7::nat]] ! 0)"
    by (simp_all add: two_words_valid two_words_table)
  have f: "fold (Recurse_partition 1 [True, False]) [0..<2] ([[0, 1], [7, 7]], 0) = ([[0, 1], [0, 7]], 1)"
    by code_simp
  note t = exact_match_shortcut [OF h]
  have e: "encode (two_words ! 0) (two_words ! 0) = 242"
    using t by (rule conjunct1)
  have "case fold (Recurse_partition 1 [True, False]) [0..<2] ([[0, 1], [7, 7]], 0) of
           (all_words_left1, new_num_words_left) \<Rightarrow>
             ((0 < new_num_words_left \<and> all_words_left1 ! 1 ! 0 = 0)
                \<longleftrightarrow> 0 \<in> set (take new_num_words_left (all_words_left1 ! 1)))
             \<and> (0 \<in> set (take new_num_words_left (all_words_left1 ! 1))
                \<longrightarrow> new_num_words_left = 1
                    \<and> [True, False] = ComputeWordPatternMatches two_words ! 0 ! 242)"
    using t by (rule conjunct1 [OF conjunct2 [OF conjunct2]])
  then have p: "[True, False] = ComputeWordPatternMatches two_words ! 0 ! 242"
    unfolding f prod.case by simp
  from h e f p show ?thesis
    by (intro conjI)
qed

section \<open>Recurse computes the minimiser of the specification\<close>

lemma frame_refl: "frame n awl awl"
  by (simp add: frame_def)

lemma frame_trans: "frame n a b \<Longrightarrow> frame n b c \<Longrightarrow> frame n a c"
  by (simp add: frame_def)

lemma frame_Suc: "frame (Suc n) a b \<Longrightarrow> frame n a b"
proof -
  assume f: "frame (Suc n) a b"
  then have "take n (take (Suc n) b) = take n (take (Suc n) a)"
    by (simp only: frame_def)
  then have "take n b = take n a"
    by simp
  then show ?thesis using f by (simp add: frame_def)
qed

lemma frame_length: "frame n a b \<Longrightarrow> length b = length a"
  unfolding frame_def using map_eq_imp_length_eq by blast

lemma frame_row_length: "frame n a b \<Longrightarrow> k < length a \<Longrightarrow> length (b ! k) = length (a ! k)"
proof -
  assume f: "frame n a b" and k: "k < length a"
  from f have l: "length b = length a" by (rule frame_length)
  have "map length b ! k = map length a ! k"
    using f by (simp add: frame_def)
  then show ?thesis using k l by simp
qed

lemma frame_nth: "frame n a b \<Longrightarrow> k < n \<Longrightarrow> b ! k = a ! k"
proof -
  assume f: "frame n a b" and k: "k < n"
  have "take n b ! k = take n a ! k"
    using f by (simp add: frame_def)
  then show ?thesis using k by simp
qed

lemma fits_frame: "fits m n a \<Longrightarrow> frame j a b \<Longrightarrow> fits m n b"
  unfolding fits_def using frame_length [of j a b] frame_row_length [of j a b] by simp

lemma fits_mono: "fits m n a \<Longrightarrow> n' \<le> n \<Longrightarrow> fits m n' a"
  unfolding fits_def using order_trans by blast

lemma frame_update:
  assumes "length x = length (awl ! ng)"
  shows "frame ng awl (awl[ng := x])"
proof -
  have "map length (awl[ng := x]) = (map length awl)[ng := length x]"
    by (rule map_update)
  also have "\<dots> = map length awl"
  proof (cases "ng < length awl")
    case True
    then show ?thesis using assms by (simp add: list_update_same_conv)
  next
    case False
    then show ?thesis by (simp add: list_update_beyond)
  qed
  finally show ?thesis
    by (simp add: frame_def)
qed

lemma length_subset_of: "length (subset_of p ws) \<le> length ws"
  by (simp add: subset_of_def)

lemma partition_refined:
  fixes pattern :: "bool list"
  assumes ng: "1 \<le> ng" "ng < max_num_guesses" and fit: "fits max_num_guesses nwl awl"
  defines "sub \<equiv> subset_of pattern (take nwl (awl ! (ng - 1)))"
  shows "\<exists>awl1. fold (Recurse_partition ng pattern) [0..<nwl] (awl, 0) = (awl1, length sub)
           \<and> frame ng awl awl1 \<and> take (length sub) (awl1 ! ng) = sub
           \<and> (sub \<noteq> [] \<longrightarrow> awl1 ! ng ! 0 = hd sub)"
proof -
  have l: "ng < length awl" "ng - 1 < length awl"
    using ng fit unfolding fits_def by linarith+
  then have r: "nwl \<le> length (awl ! (ng - 1))" "nwl \<le> length (awl ! ng)"
    using fit by (simp_all add: fits_def)
  define awl1 where "awl1 = awl[ng := sub @ drop (length sub) (awl ! ng)]"
  have f: "fold (Recurse_partition ng pattern) [0..<nwl] (awl, 0) = (awl1, length sub)"
    unfolding awl1_def sub_def using ng(1) l(1) r by (rule Recurse_partition_fold)
  have "length sub \<le> nwl"
    unfolding sub_def by (rule order_trans [OF length_subset_of]) simp
  then have ls: "length sub \<le> length (awl ! ng)"
    using r(2) by simp
  then have "length (sub @ drop (length sub) (awl ! ng)) = length (awl ! ng)"
    by simp
  then have fr: "frame ng awl awl1"
    unfolding awl1_def by (rule frame_update)
  have row: "awl1 ! ng = sub @ drop (length sub) (awl ! ng)"
    using l(1) by (simp add: awl1_def)
  have tk: "take (length sub) (awl1 ! ng) = sub"
    by (simp add: row)
  have hd: "awl1 ! ng ! 0 = hd sub" if "sub \<noteq> []"
    using that by (simp add: row nth_append hd_conv_nth)
  show ?thesis
    using f fr tk hd by blast
qed

lemma Recurse_patterns_refined:
  assumes rp: "refines max_num_guesses (Suc ng) rec srec"
    and ng: "1 \<le> ng" "ng < max_num_guesses"
  shows "fits max_num_guesses nwl awl \<Longrightarrow>
     \<exists>valid res awl'. Recurse_patterns ops rec ng nwl w ps (acc, awl) = Some (valid, res, awl')
       \<and> frame ng awl awl'
       \<and> spec_patterns ops srec w (take nwl (awl ! (ng - 1))) ps acc
           = (if valid then Some res else None)"
proof (induction ps arbitrary: acc awl)
  case Nil
  show ?case
    by (intro exI [of _ True] exI [of _ acc] exI [of _ awl]) (simp add: frame_refl)
next
  case (Cons p ps)
  define ws where "ws = take nwl (awl ! (ng - 1))"
  define sub where "sub = subset_of p ws"
  from partition_refined [OF ng Cons.prems, of p]
  obtain awl1 where part: "fold (Recurse_partition ng p) [0..<nwl] (awl, 0) = (awl1, length sub)"
    and fr1: "frame ng awl awl1" and tk: "take (length sub) (awl1 ! ng) = sub"
    and hd: "sub \<noteq> [] \<Longrightarrow> awl1 ! ng ! 0 = hd sub"
    unfolding sub_def ws_def by blast
  have fit1: "fits max_num_guesses nwl awl1"
    using Cons.prems fr1 by (rule fits_frame)
  have same: "frame ng awl b \<Longrightarrow> take nwl (b ! (ng - 1)) = ws" for b
    using frame_nth [of ng awl b "ng - 1"] ng(1) by (simp add: ws_def)
  have step: "\<exists>valid res awl'. Recurse_patterns ops rec ng nwl w ps (acc', b) = Some (valid, res, awl')
       \<and> frame ng awl awl'
       \<and> spec_patterns ops srec w ws ps acc' = (if valid then Some res else None)"
    if b: "frame ng awl b" for acc' b
  proof -
    have "fits max_num_guesses nwl b"
      using Cons.prems b by (rule fits_frame)
    from Cons.IH [OF this, of acc'] obtain valid res awl' where
      "Recurse_patterns ops rec ng nwl w ps (acc', b) = Some (valid, res, awl')"
      "frame ng b awl'"
      "spec_patterns ops srec w (take nwl (b ! (ng - 1))) ps acc' = (if valid then Some res else None)"
      by blast
    then show ?thesis
      using frame_trans [OF b] same [OF b] by auto
  qed
  show ?case
  proof (cases "sub = []")
    case True
    then have unf: "Recurse_patterns ops rec ng nwl w (p # ps) (acc, awl)
        = Recurse_patterns ops rec ng nwl w ps (acc, awl1)"
      by (simp add: part)
    have sp: "spec_patterns ops srec w ws (p # ps) acc = spec_patterns ops srec w ws ps acc"
      using True by (simp add: sub_def)
    show ?thesis
      unfolding unf ws_def [symmetric] sp by (rule step [OF fr1])
  next
    case False
    then have pos: "0 < length sub" by simp
    show ?thesis
    proof (cases "hd sub = w")
      case True
      define acc' where
        "acc' = f_add ops acc (f_mul ops (to_float ops (length sub)) (to_float ops 1))"
      have unf: "Recurse_patterns ops rec ng nwl w (p # ps) (acc, awl)
          = Recurse_patterns ops rec ng nwl w ps (acc', awl1)"
        using pos True hd [OF False] by (simp add: part acc'_def)
      have sp: "spec_patterns ops srec w ws (p # ps) acc = spec_patterns ops srec w ws ps acc'"
        using False True by (simp add: sub_def [symmetric] acc'_def)
      show ?thesis
        unfolding unf ws_def [symmetric] sp by (rule step [OF fr1])
    next
      case ne: False
      have "fits max_num_guesses (length sub) awl1"
      proof (rule fits_mono [OF fit1])
        show "length sub \<le> nwl"
          unfolding sub_def ws_def by (rule order_trans [OF length_subset_of]) simp
      qed
      with rp obtain awl2 where rec: "rec awl1 (length sub) = Some (srec sub, awl2)"
        and fr2: "frame (Suc ng) awl1 awl2"
        unfolding refines_def using tk by fastforce
      have fr: "frame ng awl awl2"
        using fr1 frame_Suc [OF fr2] by (rule frame_trans)
      show ?thesis
      proof (cases "srec sub")
        case None
        have unf: "Recurse_patterns ops rec ng nwl w (p # ps) (acc, awl) = Some (False, acc, awl2)"
          using pos ne hd [OF False] None by (simp add: part rec)
        have sp: "spec_patterns ops srec w ws (p # ps) acc = None"
          using False ne None by (simp add: sub_def [symmetric])
        show ?thesis
          unfolding unf ws_def [symmetric] sp using fr
          by (intro exI [of _ False] exI [of _ acc] exI [of _ awl2]) simp
      next
        case (Some r)
        define acc' where
          "acc' = f_add ops acc (f_mul ops (to_float ops (length sub)) (f_add ops (to_float ops 1) r))"
        have unf: "Recurse_patterns ops rec ng nwl w (p # ps) (acc, awl)
            = Recurse_patterns ops rec ng nwl w ps (acc', awl2)"
          using pos ne hd [OF False] Some by (simp add: part rec acc'_def)
        have sp: "spec_patterns ops srec w ws (p # ps) acc = spec_patterns ops srec w ws ps acc'"
          using False ne Some by (simp add: sub_def [symmetric] acc'_def)
        show ?thesis
          unfolding unf ws_def [symmetric] sp by (rule step [OF fr])
      qed
    qed
  qed
qed

lemma map_nth_fun: "map (\<lambda>i. f (xs ! i)) [0..<length xs] = map f xs"
proof -
  have "map (\<lambda>i. f (xs ! i)) [0..<length xs] = map f (map ((!) xs) [0..<length xs])"
    by (simp add: comp_def)
  then show ?thesis by (simp only: map_nth)
qed

lemma Recurse_candidates_refined:
  assumes rp: "refines max_num_guesses (Suc ng) rec srec"
    and ng: "1 \<le> ng" "ng < max_num_guesses"
  shows "fits max_num_guesses nwl awl \<Longrightarrow> \<forall>i\<in>set nexts. i < nwl \<Longrightarrow>
     \<exists>awl'. Recurse_candidates ops rec ng nwl wpm nexts (m, awl)
          = Some (min_valid ops
                    (map (\<lambda>i. candidate_value ops srec wpm (take nwl (awl ! (ng - 1)))
                                 (take nwl (awl ! (ng - 1)) ! i)) nexts) m, awl')
       \<and> frame ng awl awl'"
proof (induction nexts arbitrary: m awl)
  case Nil
  show ?case by (simp add: frame_refl)
next
  case (Cons i nexts)
  define ws where "ws = take nwl (awl ! (ng - 1))"
  define w where "w = awl ! (ng - 1) ! i"
  have i: "i < nwl" using Cons.prems(2) by simp
  have wsi: "ws ! i = w"
    using i by (simp add: ws_def w_def)
  have "ng - 1 < length awl"
    using ng Cons.prems(1) unfolding fits_def by linarith
  then have len: "length ws = nwl"
    using Cons.prems(1) by (simp add: ws_def fits_def)
  from Recurse_patterns_refined [OF rp ng Cons.prems(1), of ops w "wpm ! w" "to_float ops 0"]
  obtain valid res awl1 where
    pat: "Recurse_patterns ops rec ng nwl w (wpm ! w) (to_float ops 0, awl) = Some (valid, res, awl1)"
    and fr1: "frame ng awl awl1"
    and sp: "spec_patterns ops srec w ws (wpm ! w) (to_float ops 0) = (if valid then Some res else None)"
    unfolding ws_def by blast
  have fit1: "fits max_num_guesses nwl awl1"
    using Cons.prems(1) fr1 by (rule fits_frame)
  have same: "take nwl (awl1 ! (ng - 1)) = ws"
    using frame_nth [OF fr1, of "ng - 1"] ng(1) by (simp add: ws_def)
  have rest: "\<exists>awl'. Recurse_candidates ops rec ng nwl wpm nexts (m', awl1)
          = Some (min_valid ops (map (\<lambda>i. candidate_value ops srec wpm ws (ws ! i)) nexts) m', awl')
       \<and> frame ng awl awl'" for m'
  proof -
    have "\<forall>i\<in>set nexts. i < nwl" using Cons.prems(2) by simp
    from Cons.IH [OF fit1 this, of m'] show ?thesis
      unfolding same using frame_trans [OF fr1] by blast
  qed
  have unf: "Recurse_candidates ops rec ng nwl wpm (i # nexts) (m, awl)
      = Recurse_candidates ops rec ng nwl wpm nexts
          (if valid then keep_min ops m (f_div ops res (to_float ops nwl)) else m, awl1)"
    using pat by (simp add: w_def [symmetric] Let_def keep_min_def del: One_nat_def)
  have cv: "candidate_value ops srec wpm ws w
      = (if valid then Some (f_div ops res (to_float ops nwl)) else None)"
    by (simp add: candidate_value_def sp len)
  have mv: "min_valid ops (map (\<lambda>i. candidate_value ops srec wpm ws (ws ! i)) (i # nexts)) m
      = min_valid ops (map (\<lambda>i. candidate_value ops srec wpm ws (ws ! i)) nexts)
          (if valid then keep_min ops m (f_div ops res (to_float ops nwl)) else m)"
    by (simp add: wsi cv)
  show ?case
    unfolding ws_def [symmetric] unf mv by (rule rest)
qed

lemma Recurse_refines_minimax:
  "1 \<le> ng \<Longrightarrow> ng + budget = max_num_guesses \<Longrightarrow> fits max_num_guesses nwl awl \<Longrightarrow>
     \<exists>awl'. Recurse ops ng max_num_guesses awl nwl wpm
          = Some (minimax_expected ops wpm budget (take nwl (awl ! (ng - 1))), awl')
       \<and> frame ng awl awl'"
proof (induction budget arbitrary: ng nwl awl)
  case 0
  then have "ng = max_num_guesses" by simp
  then show ?case
    by (subst Recurse.simps) (simp add: frame_refl)
next
  case (Suc budget)
  have lt: "ng < max_num_guesses" and ne: "ng \<noteq> max_num_guesses"
    using Suc.prems(2) by simp_all
  have "ng - 1 < length awl"
    using lt Suc.prems(3) unfolding fits_def by linarith
  then have len: "length (take nwl (awl ! (ng - 1))) = nwl"
    using Suc.prems(3) by (simp add: fits_def)
  show ?case
  proof (cases "nwl = 1")
    case True
    show ?thesis
      using ne True len by (subst Recurse.simps) (simp add: frame_refl)
  next
    case False
    let ?rec = "\<lambda>awl' n. Recurse ops (ng + 1) max_num_guesses awl' n wpm"
    have rp: "refines max_num_guesses (Suc ng) ?rec (minimax_expected ops wpm budget)"
      unfolding refines_def
    proof (intro allI impI)
      fix a n
      assume "fits max_num_guesses n a"
      with Suc.IH [of "Suc ng" n a] Suc.prems(2)
      show "\<exists>awl'. Recurse ops (ng + 1) max_num_guesses a n wpm
          = Some (minimax_expected ops wpm budget (take n (a ! (Suc ng - 1))), awl')
          \<and> frame (Suc ng) a awl'"
        by simp
    qed
    have unf: "Recurse ops ng max_num_guesses awl nwl wpm
        = Recurse_candidates ops ?rec ng nwl wpm [0..<nwl] (None, awl)"
      using ne False by (subst Recurse.simps) simp
    have mp: "map (\<lambda>i. candidate_value ops (minimax_expected ops wpm budget) wpm
                  (take nwl (awl ! (ng - 1))) (take nwl (awl ! (ng - 1)) ! i)) [0..<nwl]
        = map (candidate_value ops (minimax_expected ops wpm budget) wpm (take nwl (awl ! (ng - 1))))
            (take nwl (awl ! (ng - 1)))"
      using map_nth_fun [where xs = "take nwl (awl ! (ng - 1))"
          and f = "candidate_value ops (minimax_expected ops wpm budget) wpm (take nwl (awl ! (ng - 1)))"]
      unfolding len .
    have sp: "minimax_expected ops wpm (Suc budget) (take nwl (awl ! (ng - 1)))
        = min_valid ops
            (map (candidate_value ops (minimax_expected ops wpm budget) wpm (take nwl (awl ! (ng - 1))))
               (take nwl (awl ! (ng - 1)))) None"
      using False len by simp
    from Recurse_candidates_refined [OF rp Suc.prems(1) lt Suc.prems(3), of "[0..<nwl]" ops wpm None]
    show ?thesis
      unfolding unf sp mp by simp
  qed
qed

lemma set_subset_of: "set (subset_of p ws) \<subseteq> set ws"
  by (auto simp: subset_of_def)

lemma spec_patterns_cong:
  assumes "\<And>sub. set sub \<subseteq> set ws \<Longrightarrow> rec1 sub = rec2 sub"
  shows "spec_patterns ops rec1 w ws ps acc = spec_patterns ops rec2 w ws ps acc"
proof (induction ps arbitrary: acc)
  case Nil
  show ?case by simp
next
  case (Cons p ps)
  have "rec1 (subset_of p ws) = rec2 (subset_of p ws)"
    using set_subset_of by (rule assms)
  then show ?case
    by (simp add: Cons.IH split: option.splits)
qed

lemma spec_patterns_filter:
  assumes "\<And>p. p \<in> set ps \<Longrightarrow> \<not> nonempty_pattern p \<Longrightarrow> subset_of p ws = []"
  shows "spec_patterns ops rec w ws (filter nonempty_pattern ps) acc
       = spec_patterns ops rec w ws ps acc"
  using assms
proof (induction ps arbitrary: acc)
  case Nil
  show ?case by simp
next
  case (Cons p ps)
  have IH: "spec_patterns ops rec w ws (filter nonempty_pattern ps) acc'
       = spec_patterns ops rec w ws ps acc'" for acc'
    by (rule Cons.IH) (simp add: Cons.prems)
  show ?case
  proof (cases "nonempty_pattern p")
    case True
    then show ?thesis by (simp add: IH split: option.splits)
  next
    case False
    then have "subset_of p ws = []"
      using Cons.prems [of p] by simp
    then show ?thesis using False by (simp add: IH)
  qed
qed

lemma empty_subset:
  assumes "\<not> nonempty_pattern p" and "set ws \<subseteq> {..<length p}"
  shows "subset_of p ws = []"
proof -
  have "\<not> p ! x" if "x \<in> set ws" for x
  proof -
    have "x < length p" using that assms(2) by auto
    then show ?thesis using assms(1) by (auto simp: nonempty_pattern_def)
  qed
  then show ?thesis
    by (simp add: subset_of_def filter_empty_conv)
qed

lemma ComputeWordPatternMatches_table_shape:
  assumes "valid_words words"
  shows "table_shape (length words) (ComputeWordPatternMatches words)"
proof -
  let ?t = "ComputeWordPatternMatches words"
  have len: "length ?t = length words"
    using table_upto_ComputeWordPatternMatches [OF assms] by (simp add: table_upto_def)
  have "length p = length words" if g: "g < length words" and p: "p \<in> set (?t ! g)" for g p
  proof -
    from p obtain q where "q < length (?t ! g)" and "?t ! g ! q = p"
      unfolding in_set_conv_nth by blast
    then show ?thesis
      using ComputeWordPatternMatches_shape [OF assms g] by auto
  qed
  then show ?thesis
    using len by (simp add: table_shape_def)
qed

lemma minimax_expected_trim:
  assumes t: "table_shape V t"
  shows "set ws \<subseteq> {..<V} \<Longrightarrow>
     minimax_expected ops (TrimWordPatternMatches t) budget ws = minimax_expected ops t budget ws"
proof (induction budget arbitrary: ws)
  case 0
  show ?case by simp
next
  case (Suc budget)
  have cv: "candidate_value ops (minimax_expected ops (TrimWordPatternMatches t) budget)
              (TrimWordPatternMatches t) ws w
          = candidate_value ops (minimax_expected ops t budget) t ws w" if w: "w \<in> set ws" for w
  proof -
    have wV: "w < V" using w Suc.prems by auto
    then have row: "TrimWordPatternMatches t ! w = filter nonempty_pattern (t ! w)"
      using t by (simp add: TrimWordPatternMatches_nth table_shape_def)
    have "spec_patterns ops (minimax_expected ops (TrimWordPatternMatches t) budget) w ws
            (filter nonempty_pattern (t ! w)) (to_float ops 0)
        = spec_patterns ops (minimax_expected ops (TrimWordPatternMatches t) budget) w ws
            (t ! w) (to_float ops 0)"
    proof (rule spec_patterns_filter)
      fix p
      assume "p \<in> set (t ! w)" and ne: "\<not> nonempty_pattern p"
      then have "length p = V" using t wV by (simp add: table_shape_def)
      then show "subset_of p ws = []"
        using ne Suc.prems by (intro empty_subset) simp_all
    qed
    also have "\<dots> = spec_patterns ops (minimax_expected ops t budget) w ws (t ! w) (to_float ops 0)"
    proof (rule spec_patterns_cong)
      fix sub
      assume "set sub \<subseteq> set ws"
      then have "set sub \<subseteq> {..<V}" using Suc.prems by blast
      then show "minimax_expected ops (TrimWordPatternMatches t) budget sub
          = minimax_expected ops t budget sub"
        by (rule Suc.IH)
    qed
    finally show ?thesis
      by (simp add: candidate_value_def row)
  qed
  have m: "map (candidate_value ops (minimax_expected ops (TrimWordPatternMatches t) budget)
              (TrimWordPatternMatches t) ws) ws
      = map (candidate_value ops (minimax_expected ops t budget) t ws) ws"
    by (rule map_cong [OF refl]) (rule cv)
  show ?case
    by (simp only: minimax_expected.simps m)
qed

text \<open>
  Claim C5. \<open>Recurse\<close> returns the same result over the trimmed table as over the table
  from \<open>ComputeWordPatternMatches\<close>, for every working set of words of the vocabulary;
  both calls return. The trimmed row of a guess holds the patterns of its row that have
  a member in the vocabulary, in the same order.
\<close>

theorem trim_preserves_search:
  assumes "valid_words words" and "1 \<le> num_guesses" and "num_guesses \<le> max_num_guesses"
    and "fits max_num_guesses num_words_left all_words_left"
    and "set (take num_words_left (all_words_left ! (num_guesses - 1))) \<subseteq> {..<length words}"
  shows "(\<exists>r a a'.
       Recurse ops num_guesses max_num_guesses all_words_left num_words_left
         (TrimWordPatternMatches (ComputeWordPatternMatches words)) = Some (r, a)
     \<and> Recurse ops num_guesses max_num_guesses all_words_left num_words_left
         (ComputeWordPatternMatches words) = Some (r, a'))
   \<and> (\<forall>g<length words.
        TrimWordPatternMatches (ComputeWordPatternMatches words) ! g
          = filter (\<lambda>pattern. \<exists>a<length words. pattern ! a) (ComputeWordPatternMatches words ! g))"
proof (rule conjI)
  let ?t = "ComputeWordPatternMatches words"
  let ?ws = "take num_words_left (all_words_left ! (num_guesses - 1))"
  have sh: "table_shape (length words) ?t"
    using assms(1) by (rule ComputeWordPatternMatches_table_shape)
  define budget where "budget = max_num_guesses - num_guesses"
  have b: "num_guesses + budget = max_num_guesses"
    using assms(3) by (simp add: budget_def)
  obtain a where 1: "Recurse ops num_guesses max_num_guesses all_words_left num_words_left
         (TrimWordPatternMatches ?t) = Some (minimax_expected ops (TrimWordPatternMatches ?t) budget ?ws, a)"
    using Recurse_refines_minimax [OF assms(2) b assms(4)] by blast
  obtain a' where 2: "Recurse ops num_guesses max_num_guesses all_words_left num_words_left ?t
         = Some (minimax_expected ops ?t budget ?ws, a')"
    using Recurse_refines_minimax [OF assms(2) b assms(4)] by blast
  have "minimax_expected ops (TrimWordPatternMatches ?t) budget ?ws = minimax_expected ops ?t budget ?ws"
    using sh assms(5) by (rule minimax_expected_trim)
  then show "\<exists>r a a'.
       Recurse ops num_guesses max_num_guesses all_words_left num_words_left
         (TrimWordPatternMatches ?t) = Some (r, a)
     \<and> Recurse ops num_guesses max_num_guesses all_words_left num_words_left ?t = Some (r, a')"
    using 1 2 by simp
next
  let ?t = "ComputeWordPatternMatches words"
  have sh: "table_shape (length words) ?t"
    using assms(1) by (rule ComputeWordPatternMatches_table_shape)
  show "\<forall>g<length words. TrimWordPatternMatches ?t ! g
          = filter (\<lambda>pattern. \<exists>a<length words. pattern ! a) (?t ! g)"
  proof (intro allI impI)
    fix g
    assume g: "g < length words"
    have "filter nonempty_pattern (?t ! g) = filter (\<lambda>pattern. \<exists>a<length words. pattern ! a) (?t ! g)"
      by (rule filter_cong [OF refl]) (use sh g in \<open>simp add: table_shape_def nonempty_pattern_def\<close>)
    then show "TrimWordPatternMatches ?t ! g
          = filter (\<lambda>pattern. \<exists>a<length words. pattern ! a) (?t ! g)"
      using sh g by (simp add: TrimWordPatternMatches_nth table_shape_def)
  qed
qed

lemma spec_patterns_None_iff:
  "spec_patterns ops rec w ws ps acc = None \<longleftrightarrow>
     (\<exists>p\<in>set ps. subset_of p ws \<noteq> [] \<and> hd (subset_of p ws) \<noteq> w \<and> rec (subset_of p ws) = None)"
proof (induction ps arbitrary: acc)
  case Nil
  show ?case by simp
next
  case (Cons p ps)
  show ?case
  proof (cases "subset_of p ws \<noteq> [] \<and> hd (subset_of p ws) \<noteq> w")
    case False
    then show ?thesis
      using Cons.IH by auto
  next
    case True
    show ?thesis
    proof (cases "rec (subset_of p ws)")
      case None
      then show ?thesis using True by simp
    next
      case (Some r)
      then show ?thesis using True Cons.IH by simp
    qed
  qed
qed

lemma candidate_value_None_iff:
  "candidate_value ops rec table ws w = None \<longleftrightarrow>
     (\<exists>p\<in>set (table ! w). subset_of p ws \<noteq> [] \<and> hd (subset_of p ws) \<noteq> w
        \<and> rec (subset_of p ws) = None)"
  by (simp add: candidate_value_def spec_patterns_None_iff)

lemma min_valid_filter:
  "min_valid ops (filter (\<lambda>v. v \<noteq> None) vs) m = min_valid ops vs m"
proof (induction vs arbitrary: m)
  case Nil
  show ?case by simp
next
  case (Cons v vs)
  then show ?case by (cases v) simp_all
qed

lemma min_valid_None_iff:
  "min_valid ops vs m = None \<longleftrightarrow> m = None \<and> (\<forall>v\<in>set vs. v = None)"
proof (induction vs arbitrary: m)
  case Nil
  show ?case by simp
next
  case (Cons v vs)
  then show ?case by (cases v) (simp_all add: keep_min_def)
qed

lemma Recurse_patterns_break:
  assumes "fold (Recurse_partition ng p) [0..<nwl] (b, 0) = (b1, n)" and "0 < n"
    and "b1 ! ng ! 0 \<noteq> w" and "rec b1 n = Some (None, b2)"
  shows "Recurse_patterns ops rec ng nwl w (p # rest) (acc, b) = Some (False, acc, b2)"
  using assms by simp

lemma Recurse_candidates_skip:
  assumes "Recurse_patterns ops rec ng nwl (b ! (ng - 1) ! next) (wpm ! (b ! (ng - 1) ! next))
             (to_float ops 0, b) = Some (False, res, b')"
  shows "Recurse_candidates ops rec ng nwl wpm (next # rest) (m, b)
       = Recurse_candidates ops rec ng nwl wpm rest (m, b')"
  using assms by (simp add: Let_def del: One_nat_def)

lemma Thread_patterns_break:
  assumes "fold (Thread_partition p) [0..<V] (b, 0) = (b1, n)"
    and "b1 ! 0 ! 0 \<noteq> w" and "Recurse ops 1 max_num_guesses b1 n wpm = Some (None, b2)"
  shows "Thread_patterns ops max_num_guesses V wpm w (p # rest) (acc, b) = Some (False, acc, b2)"
  using assms by simp

lemma Thread_body_skip:
  assumes "Thread_patterns ops max_num_guesses (length words) wpm w (wpm ! w) (to_float ops 0, b)
             = Some (False, res, b')"
  shows "Thread_body ops max_num_guesses words wpm w (b, sh) = Some (b', sh)"
  using assms by (simp add: Thread_body_def)

text \<open>
  Claim C4. In the recursive case of \<open>Recurse\<close> the result is the first minimum of the
  values of the candidates, taken over the candidates that were not discarded, and
  \<open>std::nullopt\<close> exactly when every candidate was discarded. A candidate is discarded
  exactly when, for one of its patterns, the subset is not empty, is not the guess itself
  and cannot be won within the remaining budget. In the code, the loop over the patterns
  stops at such a pattern, whatever patterns remain, and the loop over the candidates then
  leaves \<open>min_expected\<close> as it was; the loop of \<open>Thread\<close> stops the same way and the
  worker then reports nothing for the candidate.
\<close>

theorem discarded_candidates:
  fixes ops :: "'f float_ops" and word_pattern_matches :: "bool list list list"
  assumes "1 \<le> num_guesses" and "num_guesses < max_num_guesses"
    and "fits max_num_guesses num_words_left all_words_left" and "num_words_left \<noteq> 1"
  defines "ws \<equiv> take num_words_left (all_words_left ! (num_guesses - 1))"
  defines "deeper \<equiv> minimax_expected ops word_pattern_matches (max_num_guesses - Suc num_guesses)"
  defines "vals \<equiv> map (candidate_value ops deeper word_pattern_matches ws) ws"
  shows "(\<exists>awl'. Recurse ops num_guesses max_num_guesses all_words_left num_words_left
                   word_pattern_matches = Some (min_valid ops vals None, awl'))
    \<and> (\<forall>w. candidate_value ops deeper word_pattern_matches ws w = None \<longleftrightarrow>
          (\<exists>p\<in>set (word_pattern_matches ! w). subset_of p ws \<noteq> [] \<and> hd (subset_of p ws) \<noteq> w
             \<and> deeper (subset_of p ws) = None))
    \<and> min_valid ops vals None = min_valid ops (filter (\<lambda>v. v \<noteq> None) vals) None
    \<and> (min_valid ops vals None = None \<longleftrightarrow> (\<forall>v\<in>set vals. v = None))
    \<and> (\<forall>rec p rest acc b b1 n w b2.
          fold (Recurse_partition num_guesses p) [0..<num_words_left] (b, 0) = (b1, n) \<longrightarrow> 0 < n \<longrightarrow>
          b1 ! num_guesses ! 0 \<noteq> w \<longrightarrow> rec b1 n = Some (None, b2) \<longrightarrow>
          Recurse_patterns ops rec num_guesses num_words_left w (p # rest) (acc, b)
            = Some (False, acc, b2))
    \<and> (\<forall>rec next rest m b res b'.
          Recurse_patterns ops rec num_guesses num_words_left (b ! (num_guesses - 1) ! next)
            (word_pattern_matches ! (b ! (num_guesses - 1) ! next)) (to_float ops 0, b)
            = Some (False, res, b') \<longrightarrow>
          Recurse_candidates ops rec num_guesses num_words_left word_pattern_matches (next # rest) (m, b)
            = Recurse_candidates ops rec num_guesses num_words_left word_pattern_matches rest (m, b'))
    \<and> (\<forall>V p rest acc b b1 n w b2.
          fold (Thread_partition p) [0..<V] (b, 0) = (b1, n) \<longrightarrow> b1 ! 0 ! 0 \<noteq> w \<longrightarrow>
          Recurse ops 1 max_num_guesses b1 n word_pattern_matches = Some (None, b2) \<longrightarrow>
          Thread_patterns ops max_num_guesses V word_pattern_matches w (p # rest) (acc, b)
            = Some (False, acc, b2))
    \<and> (\<forall>words w b res b' sh.
          Thread_patterns ops max_num_guesses (length words) word_pattern_matches w
            (word_pattern_matches ! w) (to_float ops 0, b) = Some (False, res, b') \<longrightarrow>
          Thread_body ops max_num_guesses words word_pattern_matches w (b, sh) = Some (b', sh))"
proof (intro conjI)
  obtain budget where b: "max_num_guesses = num_guesses + Suc budget"
    using assms(2) less_iff_Suc_add by auto
  then have d: "deeper = minimax_expected ops word_pattern_matches budget"
    by (simp add: deeper_def)
  have "ng_row": "num_guesses - 1 < length all_words_left"
    using assms(2,3) unfolding fits_def by linarith
  then have len: "length ws = num_words_left"
    using assms(3) by (simp add: ws_def fits_def)
  have "minimax_expected ops word_pattern_matches (Suc budget) ws = min_valid ops vals None"
    using assms(4) len by (simp add: vals_def d)
  then show "\<exists>awl'. Recurse ops num_guesses max_num_guesses all_words_left num_words_left
                   word_pattern_matches = Some (min_valid ops vals None, awl')"
    using Recurse_refines_minimax [OF assms(1) b [symmetric] assms(3), of ops word_pattern_matches]
    unfolding ws_def by auto
next
  show "\<forall>w. candidate_value ops deeper word_pattern_matches ws w = None \<longleftrightarrow>
          (\<exists>p\<in>set (word_pattern_matches ! w). subset_of p ws \<noteq> [] \<and> hd (subset_of p ws) \<noteq> w
             \<and> deeper (subset_of p ws) = None)"
    by (simp only: candidate_value_None_iff) simp
next
  show "min_valid ops vals None = min_valid ops (filter (\<lambda>v. v \<noteq> None) vals) None"
    by (simp only: min_valid_filter)
next
  show "min_valid ops vals None = None \<longleftrightarrow> (\<forall>v\<in>set vals. v = None)"
    by (simp only: min_valid_None_iff) simp
next
  show "\<forall>rec p rest acc b b1 n w b2.
          fold (Recurse_partition num_guesses p) [0..<num_words_left] (b, 0) = (b1, n) \<longrightarrow> 0 < n \<longrightarrow>
          b1 ! num_guesses ! 0 \<noteq> w \<longrightarrow> rec b1 n = Some (None, b2) \<longrightarrow>
          Recurse_patterns ops rec num_guesses num_words_left w (p # rest) (acc, b)
            = Some (False, acc, b2)"
    by (intro allI impI) (rule Recurse_patterns_break)
next
  show "\<forall>rec next rest m b res b'.
          Recurse_patterns ops rec num_guesses num_words_left (b ! (num_guesses - 1) ! next)
            (word_pattern_matches ! (b ! (num_guesses - 1) ! next)) (to_float ops 0, b)
            = Some (False, res, b') \<longrightarrow>
          Recurse_candidates ops rec num_guesses num_words_left word_pattern_matches (next # rest) (m, b)
            = Recurse_candidates ops rec num_guesses num_words_left word_pattern_matches rest (m, b')"
    by (intro allI impI) (rule Recurse_candidates_skip)
next
  show "\<forall>V p rest acc b b1 n w b2.
          fold (Thread_partition p) [0..<V] (b, 0) = (b1, n) \<longrightarrow> b1 ! 0 ! 0 \<noteq> w \<longrightarrow>
          Recurse ops 1 max_num_guesses b1 n word_pattern_matches = Some (None, b2) \<longrightarrow>
          Thread_patterns ops max_num_guesses V word_pattern_matches w (p # rest) (acc, b)
            = Some (False, acc, b2)"
    by (intro allI impI) (rule Thread_patterns_break)
next
  show "\<forall>words w b res b' sh.
          Thread_patterns ops max_num_guesses (length words) word_pattern_matches w
            (word_pattern_matches ! w) (to_float ops 0, b) = Some (False, res, b') \<longrightarrow>
          Thread_body ops max_num_guesses words word_pattern_matches w (b, sh) = Some (b', sh)"
    by (intro allI impI) (rule Thread_body_skip)
qed

lemma fits_set: "fits m n awl \<longleftrightarrow> m \<le> length awl \<and> (\<forall>b\<in>set awl. n \<le> length b)"
  by (simp add: fits_def all_set_conv_all_nth)

lemma four_values:
  "map (candidate_value rat_ops (minimax_expected rat_ops four_table (3 - Suc 1)) four_table
          (take 4 (four_buffers ! (1 - 1))))
     (take 4 (four_buffers ! (1 - 1))) = [None, None, None, Some (7 / 4)]"
  by code_simp

theorem discarded_candidates_witness:
  "(1::nat) \<le> 1 \<and> (1::nat) < 3 \<and> fits 3 4 four_buffers \<and> (4::nat) \<noteq> 1
   \<and> map (candidate_value rat_ops (minimax_expected rat_ops four_table (3 - Suc 1)) four_table
             (take 4 (four_buffers ! (1 - 1))))
        (take 4 (four_buffers ! (1 - 1))) = [None, None, None, Some (7 / 4)]
   \<and> (\<exists>awl'. Recurse rat_ops 1 3 four_buffers 4 four_table = Some (Some (7 / 4), awl'))"
proof -
  have h: "(1::nat) \<le> 1" "(1::nat) < 3" "fits 3 4 four_buffers" "(4::nat) \<noteq> 1"
    by (simp_all add: fits_set four_buffers_def)
  have m: "min_valid rat_ops [None, None, None, Some (7 / 4)] None = Some (7 / 4)"
    by (simp add: keep_min_def)
  have "\<exists>awl'. Recurse rat_ops 1 3 four_buffers 4 four_table
      = Some (min_valid rat_ops
                (map (candidate_value rat_ops (minimax_expected rat_ops four_table (3 - Suc 1))
                        four_table (take 4 (four_buffers ! (1 - 1))))
                   (take 4 (four_buffers ! (1 - 1)))) None, awl')"
    using discarded_candidates [OF h, of rat_ops four_table] by (rule conjunct1)
  then have "\<exists>awl'. Recurse rat_ops 1 3 four_buffers 4 four_table = Some (Some (7 / 4), awl')"
    unfolding four_values m .
  with h four_values show ?thesis
    by (intro conjI)
qed

theorem trim_preserves_search_witness:
  "valid_words four_words \<and> (1::nat) \<le> 1 \<and> (1::nat) \<le> 3 \<and> fits 3 4 four_buffers
   \<and> set (take 4 (four_buffers ! (1 - 1))) \<subseteq> {..<length four_words}
   \<and> (\<exists>a a'. Recurse rat_ops 1 3 four_buffers 4 four_table = Some (Some (7 / 4), a)
         \<and> Recurse rat_ops 1 3 four_buffers 4 (ComputeWordPatternMatches four_words)
             = Some (Some (7 / 4), a'))"
proof -
  have h: "valid_words four_words" "(1::nat) \<le> 1" "(1::nat) \<le> 3" "fits 3 4 four_buffers"
    "set (take 4 (four_buffers ! (1 - 1))) \<subseteq> {..<length four_words}"
    by (simp_all add: fits_set four_buffers_def four_words_def valid_words_def valid_word_def)
  have t: "Recurse rat_ops 1 3 four_buffers 4 four_table
      = Some (Some (7 / 4), [[0, 1, 2, 3], [3, 1, 9, 9], [0, 9, 9, 9]])"
    by code_simp
  from trim_preserves_search [OF h, of rat_ops] obtain r a a' where
    "Recurse rat_ops 1 3 four_buffers 4 four_table = Some (r, a)"
    "Recurse rat_ops 1 3 four_buffers 4 (ComputeWordPatternMatches four_words) = Some (r, a')"
    unfolding four_table_def by blast
  then have "\<exists>a a'. Recurse rat_ops 1 3 four_buffers 4 four_table = Some (Some (7 / 4), a)
         \<and> Recurse rat_ops 1 3 four_buffers 4 (ComputeWordPatternMatches four_words)
             = Some (Some (7 / 4), a')"
    using t by auto
  with h show ?thesis
    by (intro conjI)
qed

section \<open>The workers and the best first guess\<close>

text \<open>
  A worker running alone: the loop of \<open>Thread\<close> over its range is an execution in the
  sense of \<open>workers_run\<close>.
\<close>

lemma workers_run_trans:
  "workers_run ops max_num_guesses words wpm c' c'' \<Longrightarrow>
     workers_run ops max_num_guesses words wpm c c' \<Longrightarrow>
     workers_run ops max_num_guesses words wpm c c''"
proof (induction rule: workers_run.induct)
  case (finished c0)
  then show ?case .
next
  case (iteration c0 workers sh t first_word rest all_words_left all_words_left' sh')
  have "workers_run ops max_num_guesses words wpm c (workers, sh)"
    using iteration.prems by (rule iteration.IH)
  then show ?case
    using iteration.hyps(2-4) by (rule workers_run.iteration)
qed

lemma Thread_loop_run:
  "Thread_loop ops max_num_guesses words wpm todo (awl, sh) = Some (awl', sh') \<Longrightarrow>
     workers_run ops max_num_guesses words wpm ([(todo, awl)], sh) ([([], awl')], sh')"
proof (induction todo arbitrary: awl sh)
  case Nil
  then show ?case
    by (simp add: workers_run.finished)
next
  case (Cons first_word rest)
  from Cons.prems obtain a1 s1 where
    body: "Thread_body ops max_num_guesses words wpm first_word (awl, sh) = Some (a1, s1)"
    and loop: "Thread_loop ops max_num_guesses words wpm rest (a1, s1) = Some (awl', sh')"
    by (auto split: option.splits)
  have "workers_run ops max_num_guesses words wpm ([(first_word # rest, awl)], sh)
      ([(first_word # rest, awl)][0 := (rest, a1)], s1)"
    by (rule workers_run.iteration [OF workers_run.finished _ _ body]) simp_all
  then have "workers_run ops max_num_guesses words wpm ([(first_word # rest, awl)], sh)
      ([(rest, a1)], s1)"
    by simp
  with Cons.IH [OF loop] show ?case
    by (rule workers_run_trans)
qed

lemma Thread_run:
  assumes "Thread start end ops max_num_guesses words wpm sh = Some sh'"
  shows "\<exists>awl'. workers_run ops max_num_guesses words wpm
      ([([start..<end], replicate max_num_guesses (replicate (length words) 0))], sh)
      ([([], awl')], sh')"
proof -
  from assms obtain awl' where
    "Thread_loop ops max_num_guesses words wpm [start..<end]
       (replicate max_num_guesses (replicate (length words) 0), sh) = Some (awl', sh')"
    by (auto simp: Thread_def)
  then show ?thesis
    using Thread_loop_run by blast
qed

lemma Thread_report_fields:
  "min_expected (Thread_report ops words first_word result sh) =
     (if min_expected sh = None \<or> f_less ops result (the (min_expected sh)) \<or>
         (f_eq ops result (the (min_expected sh)) \<and> first_word < best_word sh)
      then Some result else min_expected sh)"
  "best_word (Thread_report ops words first_word result sh) =
     (if min_expected sh = None \<or> f_less ops result (the (min_expected sh)) \<or>
         (f_eq ops result (the (min_expected sh)) \<and> first_word < best_word sh)
      then first_word else best_word sh)"
  "fout (Thread_report ops words first_word result sh) = fout sh @ [(result, words ! first_word)]"
  by (simp_all add: Thread_report_def Let_def)

lemma best_of_report:
  assumes o: "ordered_on ops S" and S: "\<And>w v. w \<in> insert fw D \<Longrightarrow> val w = Some v \<Longrightarrow> v \<in> S"
    and b: "best_of ops val D sh" and r: "val fw = Some r"
  shows "best_of ops val (insert fw D) (Thread_report ops words fw r sh)"
proof (cases "min_expected sh")
  case None
  then have m: "min_expected (Thread_report ops words fw r sh) = Some r"
    and w: "best_word (Thread_report ops words fw r sh) = fw"
    by (simp_all add: Thread_report_fields)
  have "\<forall>w\<in>D. val w = None"
    using b None by (simp add: best_of_def)
  then show ?thesis
    unfolding best_of_def m w using r by auto
next
  case (Some v)
  define bw where "bw = best_word sh"
  have bD: "bw \<in> D" and bv: "val bw = Some v"
    and least: "\<And>w v'. w \<in> D \<Longrightarrow> val w = Some v' \<Longrightarrow> f_less ops v v' \<or> (v = v' \<and> bw \<le> w)"
    using b Some unfolding best_of_def bw_def by blast+
  have rS: "r \<in> S" using S [of fw r] r by simp
  have vS: "v \<in> S" using S [of bw v] bD bv by simp
  have eq: "f_eq ops r v \<longleftrightarrow> r = v"
    and tot: "f_less ops r v \<or> r = v \<or> f_less ops v r"
    using o rS vS unfolding ordered_on_def by blast+
  have trans: "f_less ops x z" if "f_less ops x y" "f_less ops y z" "x \<in> S" "y \<in> S" "z \<in> S"
    for x y z
    using o that unfolding ordered_on_def by blast
  show ?thesis
  proof (cases "f_less ops r v \<or> (r = v \<and> fw < bw)")
    case True
    then have m: "min_expected (Thread_report ops words fw r sh) = Some r"
      and w: "best_word (Thread_report ops words fw r sh) = fw"
      using Some eq by (auto simp: Thread_report_fields bw_def)
    have "f_less ops r v' \<or> (r = v' \<and> fw \<le> w')" if w': "w' \<in> D" and v': "val w' = Some v'" for w' v'
    proof -
      have v'S: "v' \<in> S" using S [of w' v'] w' v' by simp
      from least [OF w' v'] show ?thesis
      proof
        assume lt: "f_less ops v v'"
        from True show ?thesis
        proof
          assume "f_less ops r v"
          then show ?thesis using lt trans rS vS v'S by blast
        next
          assume "r = v \<and> fw < bw"
          then show ?thesis using lt by simp
        qed
      next
        assume e: "v = v' \<and> bw \<le> w'"
        from True show ?thesis
        proof
          assume "f_less ops r v"
          then show ?thesis using e by simp
        next
          assume "r = v \<and> fw < bw"
          then show ?thesis using e by simp
        qed
      qed
    qed
    then show ?thesis
      unfolding best_of_def m w using r by auto
  next
    case False
    then have m: "min_expected (Thread_report ops words fw r sh) = Some v"
      and w: "best_word (Thread_report ops words fw r sh) = bw"
      using Some eq by (auto simp: Thread_report_fields bw_def)
    have new: "f_less ops v r \<or> (v = r \<and> bw \<le> fw)"
      using False tot by auto
    have "f_less ops v v' \<or> (v = v' \<and> bw \<le> w')"
      if w': "w' \<in> insert fw D" and v': "val w' = Some v'" for w' v'
    proof (cases "w' = fw")
      case True
      then have "v' = r" using v' r by simp
      then show ?thesis using new True by simp
    next
      case False
      then show ?thesis using least [of w' v'] w' v' by simp
    qed
    then show ?thesis
      unfolding best_of_def m w using bD bv by auto
  qed
qed

lemma best_of_skip:
  assumes "best_of ops val D sh" and "val fw = None"
  shows "best_of ops val (insert fw D) sh"
  using assms unfolding best_of_def by auto

lemma Thread_partition_refined:
  fixes pattern :: "bool list"
  assumes pos: "0 < max_num_guesses" and fit: "fits max_num_guesses V awl"
  defines "sub \<equiv> subset_of pattern [0..<V]"
  shows "\<exists>awl1. fold (Thread_partition pattern) [0..<V] (awl, 0) = (awl1, length sub)
           \<and> frame 0 awl awl1 \<and> take (length sub) (awl1 ! 0) = sub
           \<and> (sub \<noteq> [] \<longrightarrow> awl1 ! 0 ! 0 = hd sub)"
proof -
  have l: "0 < length awl"
    using pos fit unfolding fits_def by linarith
  then have r: "V \<le> length (awl ! 0)"
    using fit by (simp add: fits_def)
  define awl1 where "awl1 = awl[0 := sub @ drop (length sub) (awl ! 0)]"
  have f: "fold (Thread_partition pattern) [0..<V] (awl, 0) = (awl1, length sub)"
    unfolding awl1_def sub_def using l r by (rule Thread_partition_fold)
  have "length sub \<le> V"
    unfolding sub_def by (rule order_trans [OF length_subset_of]) simp
  then have "length (sub @ drop (length sub) (awl ! 0)) = length (awl ! 0)"
    using r by simp
  then have fr: "frame 0 awl awl1"
    unfolding awl1_def by (rule frame_update)
  have row: "awl1 ! 0 = sub @ drop (length sub) (awl ! 0)"
    using l by (simp add: awl1_def)
  have tk: "take (length sub) (awl1 ! 0) = sub"
    by (simp add: row)
  have hd: "awl1 ! 0 ! 0 = hd sub" if "sub \<noteq> []"
    using that by (simp add: row nth_append hd_conv_nth)
  show ?thesis
    using f fr tk hd by blast
qed

lemma frame_0: "frame n a b \<Longrightarrow> frame 0 a b"
  by (simp add: frame_def)

lemma Thread_patterns_refined:
  assumes pos: "0 < max_num_guesses"
  shows "fits max_num_guesses V awl \<Longrightarrow> \<forall>p\<in>set ps. subset_of p [0..<V] \<noteq> [] \<Longrightarrow>
     \<exists>valid res awl'. Thread_patterns ops max_num_guesses V wpm w ps (acc, awl) = Some (valid, res, awl')
       \<and> frame 0 awl awl'
       \<and> spec_patterns ops (minimax_expected ops wpm (max_num_guesses - 1)) w [0..<V] ps acc
           = (if valid then Some res else None)"
proof (induction ps arbitrary: acc awl)
  case Nil
  show ?case
    by (intro exI [of _ True] exI [of _ acc] exI [of _ awl]) (simp add: frame_refl)
next
  case (Cons p ps)
  let ?srec = "minimax_expected ops wpm (max_num_guesses - 1)"
  define sub where "sub = subset_of p [0..<V]"
  have ne: "sub \<noteq> []" using Cons.prems(2) by (simp add: sub_def)
  from Thread_partition_refined [OF pos Cons.prems(1), of p]
  obtain awl1 where part: "fold (Thread_partition p) [0..<V] (awl, 0) = (awl1, length sub)"
    and fr1: "frame 0 awl awl1" and tk: "take (length sub) (awl1 ! 0) = sub"
    and hd: "awl1 ! 0 ! 0 = hd sub"
    unfolding sub_def using ne [unfolded sub_def] by blast
  have fit1: "fits max_num_guesses V awl1"
    using Cons.prems(1) fr1 by (rule fits_frame)
  have rest: "\<forall>p\<in>set ps. subset_of p [0..<V] \<noteq> []"
    using Cons.prems(2) by simp
  have step: "\<exists>valid res awl'. Thread_patterns ops max_num_guesses V wpm w ps (acc', b)
         = Some (valid, res, awl')
       \<and> frame 0 awl awl'
       \<and> spec_patterns ops ?srec w [0..<V] ps acc' = (if valid then Some res else None)"
    if b: "frame 0 awl b" for acc' b
  proof -
    have "fits max_num_guesses V b"
      using Cons.prems(1) b by (rule fits_frame)
    from Cons.IH [OF this rest, of acc'] show ?thesis
      using frame_trans [OF b] by blast
  qed
  show ?case
  proof (cases "hd sub = w")
    case True
    define acc' where
      "acc' = f_add ops acc (f_mul ops (to_float ops (length sub)) (to_float ops 1))"
    have unf: "Thread_patterns ops max_num_guesses V wpm w (p # ps) (acc, awl)
        = Thread_patterns ops max_num_guesses V wpm w ps (acc', awl1)"
      using True hd by (simp add: part acc'_def)
    have sp: "spec_patterns ops ?srec w [0..<V] (p # ps) acc = spec_patterns ops ?srec w [0..<V] ps acc'"
      using ne True by (simp add: sub_def [symmetric] acc'_def)
    show ?thesis
      unfolding unf sp by (rule step [OF fr1])
  next
    case False
    have "fits max_num_guesses (length sub) awl1"
    proof (rule fits_mono [OF fit1])
      show "length sub \<le> V"
        unfolding sub_def by (rule order_trans [OF length_subset_of]) simp
    qed
    from Recurse_refines_minimax [OF _ _ this, of 1 "max_num_guesses - 1" ops wpm] pos
    obtain awl2 where rec: "Recurse ops 1 max_num_guesses awl1 (length sub) wpm
        = Some (?srec sub, awl2)" and fr2: "frame 1 awl1 awl2"
      using tk by auto
    have fr: "frame 0 awl awl2"
      using fr1 frame_0 [OF fr2] by (rule frame_trans)
    show ?thesis
    proof (cases "?srec sub")
      case None
      have unf: "Thread_patterns ops max_num_guesses V wpm w (p # ps) (acc, awl)
          = Some (False, acc, awl2)"
        using False hd None by (simp add: part rec del: One_nat_def)
      have sp: "spec_patterns ops ?srec w [0..<V] (p # ps) acc = None"
        using ne False None by (simp add: sub_def [symmetric] del: One_nat_def)
      show ?thesis
        unfolding unf sp using fr
        by (intro exI [of _ False] exI [of _ acc] exI [of _ awl2]) simp
    next
      case (Some r)
      define acc' where
        "acc' = f_add ops acc (f_mul ops (to_float ops (length sub)) (f_add ops (to_float ops 1) r))"
      have unf: "Thread_patterns ops max_num_guesses V wpm w (p # ps) (acc, awl)
          = Thread_patterns ops max_num_guesses V wpm w ps (acc', awl2)"
        using False hd Some by (simp add: part rec acc'_def del: One_nat_def)
      have sp: "spec_patterns ops ?srec w [0..<V] (p # ps) acc
          = spec_patterns ops ?srec w [0..<V] ps acc'"
        using ne False Some by (simp add: sub_def [symmetric] acc'_def del: One_nat_def)
      show ?thesis
        unfolding unf sp by (rule step [OF fr])
    qed
  qed
qed

lemma Thread_body_refined:
  assumes pos: "0 < max_num_guesses" and fit: "fits max_num_guesses (length words) awl"
    and ne: "\<forall>p\<in>set (wpm ! w). subset_of p [0..<length words] \<noteq> []"
  shows "\<exists>awl'. Thread_body ops max_num_guesses words wpm w (awl, sh)
      = Some (awl',
          case candidate_value ops (minimax_expected ops wpm (max_num_guesses - 1)) wpm
                 [0..<length words] w of
            None \<Rightarrow> sh
          | Some v \<Rightarrow> Thread_report ops words w v sh)
      \<and> fits max_num_guesses (length words) awl'"
proof -
  from Thread_patterns_refined [OF pos fit ne, of ops wpm w "to_float ops 0"]
  obtain valid res awl' where
    pat: "Thread_patterns ops max_num_guesses (length words) wpm w (wpm ! w) (to_float ops 0, awl)
        = Some (valid, res, awl')"
    and fr: "frame 0 awl awl'"
    and sp: "spec_patterns ops (minimax_expected ops wpm (max_num_guesses - 1)) w [0..<length words]
        (wpm ! w) (to_float ops 0) = (if valid then Some res else None)"
    by blast
  have fit': "fits max_num_guesses (length words) awl'"
    using fit fr by (rule fits_frame)
  have cv: "candidate_value ops (minimax_expected ops wpm (max_num_guesses - 1)) wpm
                 [0..<length words] w
      = (if valid then Some (f_div ops res (to_float ops (length words))) else None)"
    by (simp add: candidate_value_def sp del: One_nat_def)
  have "Thread_body ops max_num_guesses words wpm w (awl, sh)
      = Some (awl', if valid then Thread_report ops words w
                       (f_div ops res (to_float ops (length words))) sh else sh)"
    by (simp add: Thread_body_def pat)
  then show ?thesis
    using fit' by (simp add: cv del: One_nat_def)
qed

lemma thread_ranges_cover:
  "concat (map (\<lambda>(start, end). [start..<end]) (thread_ranges V)) = [0..<V]"
proof -
  have "concat (map (\<lambda>(start, end). [start..<end]) (thread_ranges V))
      = concat (map (\<lambda>t. [V * t div kNumThreads..<V * Suc t div kNumThreads]) [0..<kNumThreads])"
    by (simp add: thread_ranges_def comp_def)
  also have "\<dots> = [V * 0 div kNumThreads..<V * kNumThreads div kNumThreads]"
    by (rule concat_ranges) (simp add: div_le_mono)
  also have "\<dots> = [0..<V]"
    by (simp add: kNumThreads_def)
  finally show ?thesis .
qed

lemma todo_update:
  assumes "t < length workers" and "workers ! t = (fw # rest, awl)"
  shows "set (concat (map fst workers))
       = insert fw (set (concat (map fst (workers[t := (rest, awl')]))))"
proof -
  have 1: "workers = take t workers @ (fw # rest, awl) # drop (Suc t) workers"
    using id_take_nth_drop [OF assms(1)] assms(2) by simp
  have 2: "workers[t := (rest, awl')] = take t workers @ (rest, awl') # drop (Suc t) workers"
    using assms(1) by (rule upd_conv_take_nth_drop)
  have "set (concat (map fst (take t workers @ (fw # rest, awl) # drop (Suc t) workers)))
      = insert fw (set (concat (map fst (take t workers @ (rest, awl') # drop (Suc t) workers))))"
    by auto
  then show ?thesis
    using 1 2 by simp
qed

lemma run_inv_iteration:
  assumes pos: "0 < max_num_guesses"
    and ne: "\<And>w p. w < length words \<Longrightarrow> p \<in> set (wpm ! w) \<Longrightarrow> subset_of p [0..<length words] \<noteq> []"
    and val: "val = candidate_value ops (minimax_expected ops wpm (max_num_guesses - 1)) wpm
                     [0..<length words]"
    and ord: "ordered_on ops {v. \<exists>w<length words. val w = Some v}"
    and inv: "run_inv ops val max_num_guesses (length words) (workers, sh)"
    and t: "t < length workers" "workers ! t = (fw # rest, awl)"
    and body: "Thread_body ops max_num_guesses words wpm fw (awl, sh) = Some (awl', sh')"
  shows "run_inv ops val max_num_guesses (length words) (workers[t := (rest, awl')], sh')"
proof -
  from inv obtain D where fitw: "\<forall>worker\<in>set workers. fits max_num_guesses (length words) (snd worker)"
    and todo: "set (concat (map fst workers)) \<subseteq> {..<length words}"
    and D: "D \<subseteq> {..<length words}" "{..<length words} \<subseteq> D \<union> set (concat (map fst workers))"
    and best: "best_of ops val D sh"
    unfolding run_inv_def by auto
  have upd: "set (concat (map fst workers))
       = insert fw (set (concat (map fst (workers[t := (rest, awl')]))))"
    using t by (rule todo_update)
  have fw: "fw < length words"
    using todo upd by auto
  have "(fw # rest, awl) \<in> set workers"
    using t nth_mem by fastforce
  then have fit: "fits max_num_guesses (length words) awl"
    using fitw by auto
  have "\<forall>p\<in>set (wpm ! fw). subset_of p [0..<length words] \<noteq> []"
    using ne [OF fw] by blast
  from Thread_body_refined [OF pos fit this, of ops sh] body
  have fit': "fits max_num_guesses (length words) awl'"
    and sh': "sh' = (case val fw of None \<Rightarrow> sh | Some v \<Rightarrow> Thread_report ops words fw v sh)"
    unfolding val by auto
  have 1: "\<forall>worker\<in>set (workers[t := (rest, awl')]). fits max_num_guesses (length words) (snd worker)"
  proof
    fix worker
    assume "worker \<in> set (workers[t := (rest, awl')])"
    then have "worker = (rest, awl') \<or> worker \<in> set workers"
      using set_update_subset_insert [of workers t "(rest, awl')"] by auto
    then show "fits max_num_guesses (length words) (snd worker)"
      using fit' fitw by auto
  qed
  have 2: "set (concat (map fst (workers[t := (rest, awl')]))) \<subseteq> {..<length words}"
    using todo upd by auto
  have 3: "insert fw D \<subseteq> {..<length words}"
    using D(1) fw by simp
  have 4: "{..<length words} \<subseteq> insert fw D \<union> set (concat (map fst (workers[t := (rest, awl')])))"
    using D(2) upd by auto
  have 5: "best_of ops val (insert fw D) sh'"
  proof (cases "val fw")
    case None
    then show ?thesis
      using best sh' by (simp add: best_of_skip)
  next
    case (Some r)
    have "best_of ops val (insert fw D) (Thread_report ops words fw r sh)"
    proof (rule best_of_report [OF ord _ best Some])
      fix w v
      assume "w \<in> insert fw D" and "val w = Some v"
      then show "v \<in> {v. \<exists>w<length words. val w = Some v}"
        using 3 by auto
    qed
    then show ?thesis
      using sh' Some by simp
  qed
  show ?thesis
    unfolding run_inv_def fst_conv snd_conv using 1 2 3 4 5 by blast
qed

lemma run_inv_run:
  assumes pos: "0 < max_num_guesses"
    and ne: "\<And>w p. w < length words \<Longrightarrow> p \<in> set (wpm ! w) \<Longrightarrow> subset_of p [0..<length words] \<noteq> []"
    and val: "val = candidate_value ops (minimax_expected ops wpm (max_num_guesses - 1)) wpm
                     [0..<length words]"
    and ord: "ordered_on ops {v. \<exists>w<length words. val w = Some v}"
  shows "workers_run ops max_num_guesses words wpm c c' \<Longrightarrow>
     run_inv ops val max_num_guesses (length words) c \<Longrightarrow>
     run_inv ops val max_num_guesses (length words) c'"
proof (induction rule: workers_run.induct)
  case finished
  then show ?case .
next
  case (iteration c workers sh t first_word rest all_words_left all_words_left' sh')
  have i: "run_inv ops val max_num_guesses (length words) (workers, sh)"
    using iteration.IH iteration.prems by simp
  show ?case
  proof (rule run_inv_iteration [where sh = sh and fw = first_word and awl = all_words_left
        and wpm = wpm])
    show "0 < max_num_guesses" by (rule pos)
    show "\<And>w p. w < length words \<Longrightarrow> p \<in> set (wpm ! w) \<Longrightarrow> subset_of p [0..<length words] \<noteq> []"
      by (rule ne)
    show "val = candidate_value ops (minimax_expected ops wpm (max_num_guesses - 1)) wpm
                     [0..<length words]" by (rule val)
    show "ordered_on ops {v. \<exists>w<length words. val w = Some v}" by (rule ord)
    show "run_inv ops val max_num_guesses (length words) (workers, sh)" by (rule i)
    show "t < length workers" by (rule iteration.hyps(2))
    show "workers ! t = (first_word # rest, all_words_left)" by (rule iteration.hyps(3))
    show "Thread_body ops max_num_guesses words wpm first_word (all_words_left, sh)
        = Some (all_words_left', sh')" by (rule iteration.hyps(4))
  qed
qed

lemma run_inv_main:
  assumes "min_expected sh0 = None"
  shows "run_inv ops val max_num_guesses (length words) (main_workers max_num_guesses words, sh0)"
proof -
  have c: "concat (map fst (main_workers max_num_guesses words)) = [0..<length words]"
    using thread_ranges_cover [of "length words"]
    by (simp add: main_workers_def comp_def case_prod_unfold)
  have f: "\<forall>worker\<in>set (main_workers max_num_guesses words).
      fits max_num_guesses (length words) (snd worker)"
    by (auto simp: main_workers_def fits_def)
  have b: "best_of ops val {} sh0"
    using assms by (simp add: best_of_def)
  have "{} \<subseteq> {..<length words} \<and> {..<length words} \<subseteq> {} \<union> set [0..<length words]
      \<and> best_of ops val {} sh0"
    using b by auto
  then show ?thesis
    unfolding run_inv_def fst_conv snd_conv c using f by auto
qed

lemma run_inv_finished:
  assumes "run_inv ops val max_num_guesses V (workers, sh)"
    and "\<forall>worker\<in>set workers. fst worker = []"
  shows "best_of ops val {..<V} sh"
proof -
  have "concat (map fst workers) = []"
    using assms(2) by simp
  then obtain D where "D \<subseteq> {..<V}" "{..<V} \<subseteq> D" "best_of ops val D sh"
    using assms(1) unfolding run_inv_def by auto
  then show ?thesis by (simp add: subset_antisym)
qed

lemma best_of_unique:
  assumes ord: "ordered_on ops {v. \<exists>w<V. val w = Some v}"
    and 1: "best_of ops val {..<V} sh" and 2: "best_of ops val {..<V} sh'"
  shows "min_expected sh' = min_expected sh
       \<and> (min_expected sh \<noteq> None \<longrightarrow> best_word sh' = best_word sh)"
proof (cases "min_expected sh")
  case None
  then have all: "\<forall>w<V. val w = None"
    using 1 by (simp add: best_of_def)
  have "min_expected sh' = None"
  proof (cases "min_expected sh'")
    case (Some v)
    then have "best_word sh' < V \<and> val (best_word sh') = Some v"
      using 2 by (simp add: best_of_def)
    then show ?thesis using all by auto
  qed simp
  then show ?thesis using None by simp
next
  case (Some v)
  then have b: "best_word sh < V" "val (best_word sh) = Some v"
    and l: "\<And>w v'. w < V \<Longrightarrow> val w = Some v' \<Longrightarrow> f_less ops v v' \<or> (v = v' \<and> best_word sh \<le> w)"
    using 1 unfolding best_of_def by auto
  obtain v' where Some': "min_expected sh' = Some v'"
    using 2 b unfolding best_of_def by (cases "min_expected sh'") auto
  then have b': "best_word sh' < V" "val (best_word sh') = Some v'"
    and l': "\<And>w u. w < V \<Longrightarrow> val w = Some u \<Longrightarrow> f_less ops v' u \<or> (v' = u \<and> best_word sh' \<le> w)"
    using 2 unfolding best_of_def by auto
  have S: "v \<in> {v. \<exists>w<V. val w = Some v}" "v' \<in> {v. \<exists>w<V. val w = Some v}"
    using b b' by auto
  have asym: "\<not> (f_less ops v v' \<and> f_less ops v' v)" "\<not> f_less ops v v" "\<not> f_less ops v' v'"
    using ord S unfolding ordered_on_def by blast+
  from l [OF b'] l' [OF b] asym have "v = v' \<and> best_word sh \<le> best_word sh' \<and> best_word sh' \<le> best_word sh"
    by auto
  then show ?thesis
    using Some Some' by simp
qed

text \<open>
  Claim C7. The section under the lock replaces the shared best candidate exactly when
  there is none yet, or the new value is smaller, or it is equal and the new word index
  is smaller. Every iteration of a worker returns, and reports the candidate's value when
  it has one. When all workers have finished, in whatever order their iterations were
  interleaved, the shared record holds the least pair (value, word index) over all first
  guesses that have a value, and no value when none has; two complete executions end
  with the same value and the same word. (\<open>val\<close> is the value of a first guess as the
  specification defines it; the comparisons are assumed to order these values.)
\<close>

theorem best_first_guess:
  fixes ops :: "'f float_ops" and words :: "string list" and max_num_guesses :: nat
  defines "wpm \<equiv> TrimWordPatternMatches (ComputeWordPatternMatches words)"
  defines "val \<equiv> candidate_value ops (minimax_expected ops wpm (max_num_guesses - 1)) wpm
                    [0..<length words]"
  assumes v: "valid_words words" and pos: "0 < max_num_guesses"
    and ord: "ordered_on ops {v. \<exists>w<length words. val w = Some v}"
    and init: "min_expected sh0 = None" "min_expected sh0' = None"
    and run: "workers_run ops max_num_guesses words wpm
                (main_workers max_num_guesses words, sh0) (workers, sh)"
      "\<forall>worker\<in>set workers. fst worker = []"
    and run': "workers_run ops max_num_guesses words wpm
                (main_workers max_num_guesses words, sh0') (workers', sh')"
      "\<forall>worker\<in>set workers'. fst worker = []"
  shows "(\<forall>first_word result cur.
           min_expected (Thread_report ops words first_word result cur) =
             (if min_expected cur = None \<or> f_less ops result (the (min_expected cur)) \<or>
                 (f_eq ops result (the (min_expected cur)) \<and> first_word < best_word cur)
              then Some result else min_expected cur)
         \<and> best_word (Thread_report ops words first_word result cur) =
             (if min_expected cur = None \<or> f_less ops result (the (min_expected cur)) \<or>
                 (f_eq ops result (the (min_expected cur)) \<and> first_word < best_word cur)
              then first_word else best_word cur))
    \<and> (\<forall>first_word all_words_left cur.
           first_word < length words \<longrightarrow> fits max_num_guesses (length words) all_words_left \<longrightarrow>
           (\<exists>all_words_left'.
              Thread_body ops max_num_guesses words wpm first_word (all_words_left, cur)
                = Some (all_words_left',
                        case val first_word of None \<Rightarrow> cur
                        | Some result \<Rightarrow> Thread_report ops words first_word result cur)))
    \<and> (min_expected sh = None \<longleftrightarrow> (\<forall>w<length words. val w = None))
    \<and> (\<forall>r. min_expected sh = Some r \<longrightarrow>
           best_word sh < length words \<and> val (best_word sh) = Some r
           \<and> (\<forall>w<length words. \<forall>r'. val w = Some r' \<longrightarrow>
                 f_less ops r r' \<or> (r = r' \<and> best_word sh \<le> w)))
    \<and> min_expected sh' = min_expected sh
    \<and> (min_expected sh \<noteq> None \<longrightarrow> best_word sh' = best_word sh)"
proof -
  have ne: "subset_of p [0..<length words] \<noteq> []"
    if w: "w < length words" and p: "p \<in> set (wpm ! w)" for w p
  proof -
    obtain a where "a < length words" "p ! a"
      using trimmed_pattern(3) [OF v w] p unfolding wpm_def by blast
    then have "a \<in> set (subset_of p [0..<length words])"
      by (simp add: subset_of_def)
    then show ?thesis by (rule in_set_nonempty)
  qed
  have vd: "val = candidate_value ops (minimax_expected ops wpm (max_num_guesses - 1)) wpm
                    [0..<length words]"
    by (simp add: val_def)
  have keep: "run_inv ops val max_num_guesses (length words) c'"
    if r: "workers_run ops max_num_guesses words wpm c c'"
      and i: "run_inv ops val max_num_guesses (length words) c" for c c'
  proof (rule run_inv_run [where wpm = wpm and c = c])
    show "0 < max_num_guesses" by (rule pos)
    show "\<And>w p. w < length words \<Longrightarrow> p \<in> set (wpm ! w) \<Longrightarrow> subset_of p [0..<length words] \<noteq> []"
      by (rule ne)
    show "val = candidate_value ops (minimax_expected ops wpm (max_num_guesses - 1)) wpm
                    [0..<length words]" by (rule vd)
    show "ordered_on ops {v. \<exists>w<length words. val w = Some v}" by (rule ord)
    show "workers_run ops max_num_guesses words wpm c c'" by (rule r)
    show "run_inv ops val max_num_guesses (length words) c" by (rule i)
  qed
  have b: "best_of ops val {..<length words} sh"
  proof (rule run_inv_finished [OF _ run(2)])
    show "run_inv ops val max_num_guesses (length words) (workers, sh)"
      using run(1) run_inv_main [OF init(1)] by (rule keep)
  qed
  have b': "best_of ops val {..<length words} sh'"
  proof (rule run_inv_finished [OF _ run'(2)])
    show "run_inv ops val max_num_guesses (length words) (workers', sh')"
      using run'(1) run_inv_main [OF init(2)] by (rule keep)
  qed
  have 1: "\<forall>first_word result cur.
           min_expected (Thread_report ops words first_word result cur) =
             (if min_expected cur = None \<or> f_less ops result (the (min_expected cur)) \<or>
                 (f_eq ops result (the (min_expected cur)) \<and> first_word < best_word cur)
              then Some result else min_expected cur)
         \<and> best_word (Thread_report ops words first_word result cur) =
             (if min_expected cur = None \<or> f_less ops result (the (min_expected cur)) \<or>
                 (f_eq ops result (the (min_expected cur)) \<and> first_word < best_word cur)
              then first_word else best_word cur)"
    by (intro allI conjI) (rule Thread_report_fields)+
  have 2: "\<forall>first_word all_words_left cur.
           first_word < length words \<longrightarrow> fits max_num_guesses (length words) all_words_left \<longrightarrow>
           (\<exists>all_words_left'.
              Thread_body ops max_num_guesses words wpm first_word (all_words_left, cur)
                = Some (all_words_left',
                        case val first_word of None \<Rightarrow> cur
                        | Some result \<Rightarrow> Thread_report ops words first_word result cur))"
  proof (intro allI impI)
    fix first_word all_words_left cur
    assume fw: "first_word < length words"
      and fit: "fits max_num_guesses (length words) all_words_left"
    have "\<forall>p\<in>set (wpm ! first_word). subset_of p [0..<length words] \<noteq> []"
      using ne [OF fw] by blast
    from Thread_body_refined [OF pos fit this, of ops cur]
    show "\<exists>all_words_left'.
              Thread_body ops max_num_guesses words wpm first_word (all_words_left, cur)
                = Some (all_words_left',
                        case val first_word of None \<Rightarrow> cur
                        | Some result \<Rightarrow> Thread_report ops words first_word result cur)"
      unfolding vd by blast
  qed
  have 3: "min_expected sh = None \<longleftrightarrow> (\<forall>w<length words. val w = None)"
  proof
    assume "min_expected sh = None"
    then show "\<forall>w<length words. val w = None"
      using b by (simp add: best_of_def)
  next
    assume all: "\<forall>w<length words. val w = None"
    show "min_expected sh = None"
    proof (cases "min_expected sh")
      case (Some r)
      then have "best_word sh < length words \<and> val (best_word sh) = Some r"
        using b by (simp add: best_of_def)
      then show ?thesis using all by auto
    qed simp
  qed
  have 4: "\<forall>r. min_expected sh = Some r \<longrightarrow>
           best_word sh < length words \<and> val (best_word sh) = Some r
           \<and> (\<forall>w<length words. \<forall>r'. val w = Some r' \<longrightarrow>
                 f_less ops r r' \<or> (r = r' \<and> best_word sh \<le> w))"
    using b unfolding best_of_def by simp
  have 5: "min_expected sh' = min_expected sh
       \<and> (min_expected sh \<noteq> None \<longrightarrow> best_word sh' = best_word sh)"
    using ord b b' by (rule best_of_unique)
  show ?thesis
    using 1 2 3 4 5 by (intro conjI) blast+
qed

lemma ordered_on_rat_ops: "ordered_on rat_ops S"
  by (auto simp: ordered_on_def rat_ops_def)

lemma two_workers:
  "(11::nat) < length (main_workers 2 two_words)"
  "main_workers 2 two_words ! 11 = ([0], [[0, 0], [0, 0]])"
  "(23::nat) < length (main_workers 2 two_words)"
  "main_workers 2 two_words ! 23 = ([1], [[0, 0], [0, 0]])"
  by code_simp+

lemma two_bodies:
  "Thread_body rat_ops 2 two_words (TrimWordPatternMatches (ComputeWordPatternMatches two_words)) 0
     ([[0, 0], [0, 0]], two_start) = Some ([[0, 0], [0, 0]], two_after_0)"
  "Thread_body rat_ops 2 two_words (TrimWordPatternMatches (ComputeWordPatternMatches two_words)) 1
     ([[0, 0], [0, 0]], two_after_0) = Some ([[1, 0], [0, 0]], two_after_0_1)"
  "Thread_body rat_ops 2 two_words (TrimWordPatternMatches (ComputeWordPatternMatches two_words)) 1
     ([[0, 0], [0, 0]], two_start) = Some ([[1, 0], [0, 0]], two_after_1)"
  "Thread_body rat_ops 2 two_words (TrimWordPatternMatches (ComputeWordPatternMatches two_words)) 0
     ([[0, 0], [0, 0]], two_after_1) = Some ([[0, 0], [0, 0]], two_after_1_0)"
  by code_simp+

lemma two_runs:
  "workers_run rat_ops 2 two_words (TrimWordPatternMatches (ComputeWordPatternMatches two_words))
     (main_workers 2 two_words, two_start)
     ((main_workers 2 two_words)[11 := ([], [[0, 0], [0, 0]]), 23 := ([], [[1, 0], [0, 0]])],
      two_after_0_1)"
  "workers_run rat_ops 2 two_words (TrimWordPatternMatches (ComputeWordPatternMatches two_words))
     (main_workers 2 two_words, two_start)
     ((main_workers 2 two_words)[23 := ([], [[1, 0], [0, 0]]), 11 := ([], [[0, 0], [0, 0]])],
      two_after_1_0)"
proof -
  let ?T = "TrimWordPatternMatches (ComputeWordPatternMatches two_words)"
  let ?W = "main_workers 2 two_words"
  have a1: "workers_run rat_ops 2 two_words ?T (?W, two_start)
      (?W[11 := ([], [[0, 0], [0, 0]])], two_after_0)"
    by (rule workers_run.iteration [OF workers_run.finished two_workers(1,2) two_bodies(1)])
  have a2: "(23::nat) < length (?W[11 := ([], [[0, 0], [0, 0]])])"
    "?W[11 := ([], [[0, 0], [0, 0]])] ! 23 = ([1], [[0, 0], [0, 0]])"
    using two_workers by simp_all
  show "workers_run rat_ops 2 two_words ?T (?W, two_start)
     (?W[11 := ([], [[0, 0], [0, 0]]), 23 := ([], [[1, 0], [0, 0]])], two_after_0_1)"
    by (rule workers_run.iteration [OF a1 a2 two_bodies(2)])
  have b1: "workers_run rat_ops 2 two_words ?T (?W, two_start)
      (?W[23 := ([], [[1, 0], [0, 0]])], two_after_1)"
    by (rule workers_run.iteration [OF workers_run.finished two_workers(3,4) two_bodies(3)])
  have b2: "(11::nat) < length (?W[23 := ([], [[1, 0], [0, 0]])])"
    "?W[23 := ([], [[1, 0], [0, 0]])] ! 11 = ([0], [[0, 0], [0, 0]])"
    using two_workers by simp_all
  show "workers_run rat_ops 2 two_words ?T (?W, two_start)
     (?W[23 := ([], [[1, 0], [0, 0]]), 11 := ([], [[0, 0], [0, 0]])], two_after_1_0)"
    by (rule workers_run.iteration [OF b1 b2 two_bodies(4)])
qed

lemma two_finished:
  "\<forall>worker\<in>set ((main_workers 2 two_words)[11 := ([], [[0, 0], [0, 0]]), 23 := ([], [[1, 0], [0, 0]])]).
     fst worker = []"
  "\<forall>worker\<in>set ((main_workers 2 two_words)[23 := ([], [[1, 0], [0, 0]]), 11 := ([], [[0, 0], [0, 0]])]).
     fst worker = []"
  by code_simp+

theorem best_first_guess_witness:
  "valid_words two_words \<and> (0::nat) < 2
   \<and> ordered_on rat_ops
        {v. \<exists>w<length two_words.
               candidate_value rat_ops
                 (minimax_expected rat_ops
                    (TrimWordPatternMatches (ComputeWordPatternMatches two_words)) (2 - 1))
                 (TrimWordPatternMatches (ComputeWordPatternMatches two_words))
                 [0..<length two_words] w = Some v}
   \<and> min_expected two_start = None
   \<and> workers_run rat_ops 2 two_words (TrimWordPatternMatches (ComputeWordPatternMatches two_words))
        (main_workers 2 two_words, two_start)
        ((main_workers 2 two_words)[11 := ([], [[0, 0], [0, 0]]), 23 := ([], [[1, 0], [0, 0]])],
         two_after_0_1)
   \<and> workers_run rat_ops 2 two_words (TrimWordPatternMatches (ComputeWordPatternMatches two_words))
        (main_workers 2 two_words, two_start)
        ((main_workers 2 two_words)[23 := ([], [[1, 0], [0, 0]]), 11 := ([], [[0, 0], [0, 0]])],
         two_after_1_0)
   \<and> min_expected two_after_1_0 = min_expected two_after_0_1
   \<and> best_word two_after_1_0 = best_word two_after_0_1
   \<and> min_expected two_after_0_1 = Some (3 / 2) \<and> best_word two_after_0_1 = 0"
proof -
  have h: "valid_words two_words" "(0::nat) < 2" "min_expected two_start = None"
    by (simp_all add: two_words_valid two_start_def)
  note t = best_first_guess [OF h(1,2) ordered_on_rat_ops h(3) h(3) two_runs(1) two_finished(1)
      two_runs(2) two_finished(2)]
  have c: "min_expected two_after_0_1 = Some (3 / 2) \<and> best_word two_after_0_1 = 0"
    by (simp add: two_after_0_1_def)
  have "min_expected two_after_1_0 = min_expected two_after_0_1
      \<and> (min_expected two_after_0_1 \<noteq> None \<longrightarrow> best_word two_after_1_0 = best_word two_after_0_1)"
    using t by blast
  then have e: "min_expected two_after_1_0 = min_expected two_after_0_1
      \<and> best_word two_after_1_0 = best_word two_after_0_1"
    using c by simp
  show ?thesis
    using h(1,2) ordered_on_rat_ops h(3) two_runs e c by (intro conjI) blast+
qed

end
